(* ===== verification/Prelude.thy ===== *)
theory Prelude
  imports Main "HOL-Library.AList"
begin

text \<open>
  Shared vocabulary of the kiteq development: the types that name the model's values,
  the Go standard-library string functions the binding package calls
  (\<open>strings.Split\<close>, \<open>strings.Join\<close>, \<open>strings.LastIndex\<close>) with their laws, and the
  association-list lemmas the coordination-service model uses. Nothing here models code
  of the repository; it is the library the component theories share.
\<close>

section \<open>Names for the model's types\<close>

text \<open>A coordination-service path is a Go string; a payload is a Go \<open>[]byte\<close>. Isabelle's
  \<open>char\<close> is exactly one byte, so a byte slice is a \<open>char list\<close>.\<close>

type_synonym path = string
type_synonym bytes = "char list"

named_theorems zk_simps \<open>equations of the coordination-service operations\<close>
named_theorems wf_intros \<open>preservation rules of the coordination-service invariant\<close>

section \<open>Go strings: Split, Join, LastIndex\<close>

text \<open>\<open>strings.Split(s, sep)\<close> for a one-character separator: the pieces between
  separators, always at least one (\<open>strings.Split("", "/") = [""]\<close>).\<close>

fun split_on :: "char \<Rightarrow> string \<Rightarrow> string list" where
  "split_on c [] = [[]]"
| "split_on c (x # xs) =
     (if x = c then [] # split_on c xs
      else (case split_on c xs of [] \<Rightarrow> [[x]] | w # ws \<Rightarrow> (x # w) # ws))"

text \<open>\<open>strings.Join(ws, sep)\<close> for a one-character separator.\<close>

fun join_on :: "char \<Rightarrow> string list \<Rightarrow> string" where
  "join_on c [] = []"
| "join_on c [w] = w"
| "join_on c (w # v # vs) = w @ c # join_on c (v # vs)"

text \<open>\<open>strings.LastIndex(s, sub)\<close>: the greatest index at which \<open>sub\<close> occurs in \<open>s\<close>,
  or \<open>-1\<close> when it does not occur; the empty \<open>sub\<close> occurs at \<open>len(s)\<close>.\<close>

definition occurs_at :: "string \<Rightarrow> string \<Rightarrow> nat \<Rightarrow> bool" where
  "occurs_at s sub i \<longleftrightarrow> i + length sub \<le> length s \<and> take (length sub) (drop i s) = sub"

definition last_index :: "string \<Rightarrow> string \<Rightarrow> int" where
  "last_index s sub =
     (case filter (occurs_at s sub) (rev [0..<Suc (length s)]) of
        [] \<Rightarrow> -1
      | i # _ \<Rightarrow> int i)"

subsection \<open>Laws of Split and Join\<close>

lemma split_on_not_Nil [simp]: "split_on c s \<noteq> []"
  by (induction s) (auto split: list.split)

lemma split_on_pieces: "w \<in> set (split_on c s) \<Longrightarrow> c \<notin> set w"
proof (induction s arbitrary: w)
  case Nil
  then show ?case by simp
next
  case (Cons x xs)
  then show ?case
    by (cases "split_on c xs") (auto split: if_splits)
qed

lemma join_on_Cons_hd: "join_on c ((x # w) # ws) = x # join_on c (w # ws)"
  by (cases ws) auto

lemma join_on_Cons: "join_on c (w # ws) = w @ (if ws = [] then [] else c # join_on c ws)"
  by (cases ws) auto

lemma join_on_snoc: "join_on c (ws @ [w]) = (if ws = [] then w else join_on c ws @ c # w)"
  by (induction ws rule: induct_list012) (auto simp: join_on_Cons)

lemma join_on_append:
  "xs \<noteq> [] \<Longrightarrow> ys \<noteq> [] \<Longrightarrow> join_on c (xs @ ys) = join_on c xs @ c # join_on c ys"
  by (induction xs rule: induct_list012) (auto simp: join_on_Cons)

text \<open>Joining the pieces gives the string back.\<close>

lemma join_split_on [simp]: "join_on c (split_on c s) = s"
proof (induction s)
  case Nil
  then show ?case by simp
next
  case (Cons x xs)
  show ?case
  proof (cases "x = c")
    case True
    with Cons.IH show ?thesis
      by (cases "split_on c xs") simp_all
  next
    case False
    with Cons.IH show ?thesis
      by (cases "split_on c xs") (auto simp: join_on_Cons_hd)
  qed
qed

lemma split_on_append_sep:
  "c \<notin> set w \<Longrightarrow> split_on c (w @ c # s) = w # split_on c s"
  by (induction w) auto

lemma split_on_no_sep: "c \<notin> set w \<Longrightarrow> split_on c w = [w]"
  by (induction w) auto

lemma split_on_snoc_sep: "c \<notin> set h \<Longrightarrow> split_on c (p @ c # h) = split_on c p @ [h]"
proof (induction p)
  case Nil
  then show ?case by (simp add: split_on_no_sep)
next
  case (Cons x xs)
  then show ?case by (cases "split_on c xs") (simp_all split: list.split)
qed

text \<open>Splitting a join of separator-free pieces gives the pieces back.\<close>

lemma split_join_on:
  "ws \<noteq> [] \<Longrightarrow> (\<forall>w \<in> set ws. c \<notin> set w) \<Longrightarrow> split_on c (join_on c ws) = ws"
proof (induction ws rule: induct_list012)
  case 1
  then show ?case by simp
next
  case (2 w)
  then show ?case by (simp add: split_on_no_sep)
next
  case (3 w v vs)
  then show ?case by (simp add: split_on_append_sep)
qed

subsection \<open>Laws of LastIndex\<close>

lemma last_index_neg_iff:
  "last_index s sub = -1 \<longleftrightarrow> (\<forall>i. \<not> occurs_at s sub i)"
proof (cases "filter (occurs_at s sub) (rev [0..<Suc (length s)])")
  case Nil
  have "\<not> occurs_at s sub i" for i
  proof
    assume occ: "occurs_at s sub i"
    then have "i \<in> set (rev [0..<Suc (length s)])" by (auto simp: occurs_at_def)
    with occ have "i \<in> set (filter (occurs_at s sub) (rev [0..<Suc (length s)]))"
      by (simp only: set_filter) blast
    with Nil show False by simp
  qed
  with Nil show ?thesis by (simp add: last_index_def)
next
  case (Cons i rest)
  then have "i \<in> set (filter (occurs_at s sub) (rev [0..<Suc (length s)]))" by simp
  then have "occurs_at s sub i" by (simp only: set_filter) blast
  with Cons show ?thesis by (auto simp: last_index_def)
qed

lemma last_index_found:
  assumes "0 \<le> last_index s sub"
  shows "occurs_at s sub (nat (last_index s sub))"
proof (cases "filter (occurs_at s sub) (rev [0..<Suc (length s)])")
  case Nil
  with assms show ?thesis by (simp add: last_index_def)
next
  case (Cons i rest)
  then have "i \<in> set (filter (occurs_at s sub) (rev [0..<Suc (length s)]))" by simp
  then have "occurs_at s sub i" by (simp only: set_filter) blast
  with Cons show ?thesis by (simp add: last_index_def)
qed

lemma last_index_range: "-1 \<le> last_index s sub"
  by (simp add: last_index_def split: list.split)

lemma occurs_at_append_suffix: "occurs_at (w @ sub) sub (length w)"
  by (simp add: occurs_at_def)

lemma not_occurs_at_beyond: "length s < i + length sub \<Longrightarrow> \<not> occurs_at s sub i"
  by (simp add: occurs_at_def)

text \<open>A string that ends with \<open>sub\<close> has its last occurrence of \<open>sub\<close> there.\<close>

lemma last_index_suffix: "last_index (w @ sub) sub = int (length w)"
proof -
  let ?n = "length (w @ sub)" and ?P = "occurs_at (w @ sub) sub"
  have "[0..<Suc ?n] = [0..<length w] @ [length w..<Suc ?n]"
    using upt_add_eq_append [of 0 "length w" "Suc (length sub)"] by simp
  also have "[length w..<Suc ?n] = length w # [Suc (length w)..<Suc ?n]"
    by (rule upt_conv_Cons) simp
  finally have split: "rev [0..<Suc ?n] = rev [Suc (length w)..<Suc ?n] @ length w # rev [0..<length w]"
    by simp
  have "filter ?P (rev [Suc (length w)..<Suc ?n]) = []"
    by (auto simp: filter_empty_conv intro!: not_occurs_at_beyond)
  then have "filter ?P (rev [0..<Suc ?n]) = length w # filter ?P (rev [0..<length w])"
    unfolding split by (simp add: occurs_at_append_suffix)
  then show ?thesis by (simp add: last_index_def)
qed

section \<open>Association lists\<close>

text \<open>The coordination service keeps its nodes in an association list with distinct
  keys; these are the facts about \<^const>\<open>AList.update\<close> the component proofs share.\<close>

lemma map_of_update_same [simp]: "map_of (AList.update k v al) k = Some v"
  by (simp add: update_conv')

lemma map_of_update_other [simp]: "k' \<noteq> k \<Longrightarrow> map_of (AList.update k v al) k' = map_of al k'"
  by (simp add: update_conv')

end
