(* ===== verification/Zk.thy ===== *)
theory Zk
  imports Prelude
begin

text \<open>
  The coordination service (ZooKeeper, reached through \<open>github.com/blackbeans/zk\<close>) as
  the binding package sees it. It is an external collaborator, not code of the
  repository, so this theory models its documented semantics: a tree of nodes keyed by
  absolute path, each persistent or ephemeral, with data and a version; single-fire
  watches registered by \<open>Exists\<close>, \<open>Get\<close> and \<open>Children\<close> on a Go channel; fired
  events queued by the session and delivered in order into buffered channels; and a
  fault oracle that makes any client call fail with a connection loss, so that every
  error branch of the client code is reachable. \<open>srv_\<close> operations are the server
  semantics (also used for other sessions' writes), \<open>zk_\<close> operations are this
  session's calls, which may fail. The server also keeps this session's table of the
  ephemeral nodes it created and whether the session is closed; \<open>zk_close\<close> ends the
  session, deleting those nodes (spec \<section>2: ephemeral nodes are bound to the session).
\<close>

section \<open>Data\<close>

datatype create_type = CreatePersistent | CreateEphemeral

datatype zk_error =
    ErrNoNode | ErrNodeExists | ErrNoChildrenForEphemerals | ErrNotEmpty
  | ErrBadVersion | ErrBadArguments | ErrConnectionLoss

datatype event_type = EvCreated | EvDeleted | EvChanged | EvChild | EvSession

record event =
  ev_type :: event_type
  ev_path :: path

datatype watch_kind = WatchExist | WatchData | WatchChild

type_synonym chan = nat

record znode =
  zdata :: bytes
  zmode :: create_type
  zversion :: nat

record zk =
  nodes :: "(path \<times> znode) list"
  watches :: "(path \<times> watch_kind \<times> chan) list"
  pending :: "(chan \<times> event) list"
  chans :: "chan \<Rightarrow> event list"
  faults :: "bool list"
  clock :: nat
  ephemerals :: "path list"
  closed :: bool

type_synonym 'a zk_res = "(zk_error + 'a) \<times> zk"

section \<open>Paths\<close>

definition slash :: char where "slash = CHR ''/''"

definition valid_path :: "path \<Rightarrow> bool" where
  "valid_path p \<longleftrightarrow> p = ''/'' \<or>
     (case split_on slash p of [] # segs \<Rightarrow> segs \<noteq> [] \<and> [] \<notin> set segs | _ \<Rightarrow> False)"

definition parent_path :: "path \<Rightarrow> path" where
  "parent_path p = (let segs = split_on slash p in
     if length segs \<le> 2 then ''/'' else join_on slash (butlast segs))"

definition lookup :: "zk \<Rightarrow> path \<Rightarrow> znode option" where
  "lookup z p = map_of (nodes z) p"

definition children_of :: "zk \<Rightarrow> path \<Rightarrow> string list" where
  "children_of z p = [last (split_on slash q). (q, _) \<leftarrow> nodes z, q \<noteq> ''/'' \<and> parent_path q = p]"

section \<open>Watches and event delivery\<close>

definition add_watch :: "path \<Rightarrow> watch_kind \<Rightarrow> chan option \<Rightarrow> zk \<Rightarrow> zk" where
  "add_watch p k w z = (case w of None \<Rightarrow> z | Some c \<Rightarrow> z\<lparr>watches := watches z @ [(p, k, c)]\<rparr>)"

definition fires :: "path \<Rightarrow> watch_kind list \<Rightarrow> path \<times> watch_kind \<times> chan \<Rightarrow> bool" where
  "fires p ks w \<longleftrightarrow> fst w = p \<and> fst (snd w) \<in> set ks"

text \<open>A write triggers every watch of the given kinds on the path once and removes it.\<close>

definition fire :: "path \<Rightarrow> watch_kind list \<Rightarrow> event_type \<Rightarrow> zk \<Rightarrow> zk" where
  "fire p ks t z = z\<lparr>
     pending := pending z @ [(snd (snd w), \<lparr>ev_type = t, ev_path = p\<rparr>). w \<leftarrow> watches z, fires p ks w],
     watches := filter (Not \<circ> fires p ks) (watches z)\<rparr>"

text \<open>The session delivers its queued events in order; a full channel blocks delivery.\<close>

definition srv_deliver :: "nat \<Rightarrow> zk \<Rightarrow> zk option" where
  "srv_deliver cap z = (case pending z of
      [] \<Rightarrow> None
    | (c, e) # rest \<Rightarrow>
        if length (chans z c) < cap
        then Some (z\<lparr>pending := rest, chans := (chans z)(c := chans z c @ [e])\<rparr>)
        else None)"

section \<open>Server semantics\<close>

definition srv_create :: "path \<Rightarrow> bytes \<Rightarrow> create_type \<Rightarrow> zk \<Rightarrow> zk_error + zk" where
  "srv_create p d m z =
     (if \<not> valid_path p \<or> p = ''/'' then Inl ErrBadArguments
      else case lookup z (parent_path p) of
        None \<Rightarrow> Inl ErrNoNode
      | Some pn \<Rightarrow>
          if zmode pn = CreateEphemeral then Inl ErrNoChildrenForEphemerals
          else if lookup z p \<noteq> None then Inl ErrNodeExists
          else Inr (fire (parent_path p) [WatchChild] EvChild
                     (fire p [WatchExist] EvCreated
                       (z\<lparr>nodes := AList.update p \<lparr>zdata = d, zmode = m, zversion = 0\<rparr> (nodes z)\<rparr>))))"

definition srv_set :: "path \<Rightarrow> bytes \<Rightarrow> int \<Rightarrow> zk \<Rightarrow> zk_error + zk" where
  "srv_set p d v z =
     (case lookup z p of
        None \<Rightarrow> Inl ErrNoNode
      | Some n \<Rightarrow>
          if v \<noteq> -1 \<and> v \<noteq> int (zversion n) then Inl ErrBadVersion
          else Inr (fire p [WatchExist, WatchData] EvChanged
                     (z\<lparr>nodes := AList.update p (n\<lparr>zdata := d, zversion := Suc (zversion n)\<rparr>) (nodes z)\<rparr>)))"

definition srv_delete :: "path \<Rightarrow> zk \<Rightarrow> zk_error + zk" where
  "srv_delete p z =
     (if p = ''/'' then Inl ErrBadArguments
      else if lookup z p = None then Inl ErrNoNode
      else if children_of z p \<noteq> [] then Inl ErrNotEmpty
      else Inr (fire (parent_path p) [WatchChild] EvChild
                 (fire p [WatchExist, WatchData, WatchChild] EvDeleted
                   (z\<lparr>nodes := AList.delete p (nodes z), ephemerals := removeAll p (ephemerals z)\<rparr>))))"

text \<open>A fresh ensemble: only the root node, no watches, no faults.\<close>

definition empty_dir :: znode where
  "empty_dir = \<lparr>zdata = [], zmode = CreatePersistent, zversion = 0\<rparr>"

definition zk_init :: zk where
  "zk_init = \<lparr>nodes = [(''/'', empty_dir)], watches = [], pending = [],
     chans = (\<lambda>_. []), faults = [], clock = 0, ephemerals = [], closed = False\<rparr>"

section \<open>Client calls of this session\<close>

text \<open>Every call first consults the fault oracle: \<open>True\<close> is a connection loss.\<close>

definition fault_step :: "zk \<Rightarrow> bool \<times> zk" where
  "fault_step z = (case faults z of [] \<Rightarrow> (False, z) | f # fs \<Rightarrow> (f, z\<lparr>faults := fs\<rparr>))"

definition zk_exists :: "path \<Rightarrow> chan option \<Rightarrow> zk \<Rightarrow> bool zk_res" where
  "zk_exists p w z = (let (f, z1) = fault_step z in
     if f then (Inl ErrConnectionLoss, z1)
     else (Inr (lookup z1 p \<noteq> None), add_watch p WatchExist w z1))"

definition zk_get :: "path \<Rightarrow> chan option \<Rightarrow> zk \<Rightarrow> bytes zk_res" where
  "zk_get p w z = (let (f, z1) = fault_step z in
     if f then (Inl ErrConnectionLoss, z1)
     else case lookup z1 p of
       None \<Rightarrow> (Inl ErrNoNode, z1)
     | Some n \<Rightarrow> (Inr (zdata n), add_watch p WatchData w z1))"

definition zk_children :: "path \<Rightarrow> chan option \<Rightarrow> zk \<Rightarrow> string list zk_res" where
  "zk_children p w z = (let (f, z1) = fault_step z in
     if f then (Inl ErrConnectionLoss, z1)
     else case lookup z1 p of
       None \<Rightarrow> (Inl ErrNoNode, z1)
     | Some _ \<Rightarrow> (Inr (children_of z1 p), add_watch p WatchChild w z1))"

text \<open>The server records the ephemeral nodes each session creates (ZooKeeper's
  per-session ephemeral table); \<open>ephemerals\<close> is this session's entry.\<close>

definition own_create :: "create_type \<Rightarrow> path \<Rightarrow> zk \<Rightarrow> zk" where
  "own_create m p z = (if m = CreateEphemeral then z\<lparr>ephemerals := ephemerals z @ [p]\<rparr> else z)"

definition zk_create :: "path \<Rightarrow> bytes \<Rightarrow> create_type \<Rightarrow> zk \<Rightarrow> path zk_res" where
  "zk_create p d m z = (let (f, z1) = fault_step z in
     if f then (Inl ErrConnectionLoss, z1)
     else case srv_create p d m z1 of Inl e \<Rightarrow> (Inl e, z1) | Inr z2 \<Rightarrow> (Inr p, own_create m p z2))"

definition zk_set :: "path \<Rightarrow> bytes \<Rightarrow> int \<Rightarrow> zk \<Rightarrow> unit zk_res" where
  "zk_set p d v z = (let (f, z1) = fault_step z in
     if f then (Inl ErrConnectionLoss, z1)
     else case srv_set p d v z1 of Inl e \<Rightarrow> (Inl e, z1) | Inr z2 \<Rightarrow> (Inr (), z2))"

text \<open>\<open>Session.Close\<close>: the server ends the session, deleting every ephemeral node it
  owns (each delete fires watches like another session's delete) and dropping the
  session's watches and its events not yet delivered; the session is closed.\<close>

definition close_delete :: "path \<Rightarrow> zk \<Rightarrow> zk" where
  "close_delete p z = (case srv_delete p z of Inl _ \<Rightarrow> z | Inr z' \<Rightarrow> z')"

definition zk_close :: "zk \<Rightarrow> zk" where
  "zk_close z = (fold close_delete (ephemerals z) z)
     \<lparr>watches := [], pending := [], ephemerals := [], closed := True\<rparr>"

definition sleep :: "nat \<Rightarrow> zk \<Rightarrow> zk" where
  "sleep ms z = z\<lparr>clock := clock z + ms\<rparr>"

definition result_or :: "'a \<Rightarrow> zk_error + 'a \<Rightarrow> 'a" where
  "result_or dflt r = (case r of Inl _ \<Rightarrow> dflt | Inr v \<Rightarrow> v)"

text \<open>A path built from its segments, \<open>"/" + strings.Join(segs, "/")\<close>.\<close>

definition abs_path :: "string list \<Rightarrow> path" where
  "abs_path segs = slash # join_on slash segs"

definition good_seg :: "string \<Rightarrow> bool" where
  "good_seg v \<longleftrightarrow> v \<noteq> [] \<and> slash \<notin> set v"

section \<open>Lemmas: paths\<close>

lemma split_abs_path:
  "\<forall>v \<in> set segs. slash \<notin> set v \<Longrightarrow> segs \<noteq> [] \<Longrightarrow> split_on slash (abs_path segs) = [] # segs"
  using split_join_on [of "[] # segs" slash] by (cases segs) (auto simp: abs_path_def)

lemma valid_abs_path:
  "segs \<noteq> [] \<Longrightarrow> \<forall>v \<in> set segs. good_seg v \<Longrightarrow> valid_path (abs_path segs)"
  by (auto simp: valid_path_def good_seg_def split_abs_path)

lemma abs_path_not_root: "segs \<noteq> [] \<Longrightarrow> \<forall>v \<in> set segs. good_seg v \<Longrightarrow> abs_path segs \<noteq> ''/''"
  by (cases segs) (auto simp: abs_path_def slash_def good_seg_def join_on_Cons)

lemma parent_abs_path_snoc:
  assumes "\<forall>v \<in> set (segs @ [v]). slash \<notin> set v"
  shows "parent_path (abs_path (segs @ [v])) = (if segs = [] then ''/'' else abs_path segs)"
proof -
  have "split_on slash (abs_path (segs @ [v])) = [] # segs @ [v]"
    using assms by (simp add: split_abs_path)
  then show ?thesis
    by (cases segs) (auto simp: parent_path_def abs_path_def butlast_append)
qed

section \<open>Lemmas: frame of each operation\<close>

lemma fire_fields [simp]:
  "nodes (fire p ks t z) = nodes z" "faults (fire p ks t z) = faults z"
  "clock (fire p ks t z) = clock z" "ephemerals (fire p ks t z) = ephemerals z"
  "closed (fire p ks t z) = closed z"
  by (simp_all add: fire_def)

lemma add_watch_fields [simp]:
  "nodes (add_watch p k w z) = nodes z" "faults (add_watch p k w z) = faults z"
  "clock (add_watch p k w z) = clock z" "ephemerals (add_watch p k w z) = ephemerals z"
  "closed (add_watch p k w z) = closed z"
  by (simp_all add: add_watch_def split: option.split)

lemma lookup_fire [simp]: "lookup (fire p ks t z) = lookup z"
  by (simp add: lookup_def fun_eq_iff)

lemma lookup_add_watch [simp]: "lookup (add_watch p k w z) = lookup z"
  by (simp add: lookup_def fun_eq_iff)

lemma lookup_sleep [simp]: "lookup (sleep ms z) = lookup z" and faults_sleep [simp]: "faults (sleep ms z) = faults z"
  by (simp_all add: sleep_def lookup_def fun_eq_iff)

lemma own_create_fields [simp]:
  "lookup (own_create m p z) = lookup z" "nodes (own_create m p z) = nodes z"
  "faults (own_create m p z) = faults z" "clock (own_create m p z) = clock z"
  "chans (own_create m p z) = chans z" "pending (own_create m p z) = pending z"
  "watches (own_create m p z) = watches z" "closed (own_create m p z) = closed z"
  by (simp_all add: own_create_def lookup_def fun_eq_iff)

lemma fault_step_Nil [simp]: "faults z = [] \<Longrightarrow> fault_step z = (False, z)"
  by (simp add: fault_step_def)

lemma fault_step_faults: "fault_step z = (f, z1) \<Longrightarrow> faults z1 = drop 1 (faults z)"
  by (auto simp: fault_step_def split: list.splits)

lemma fault_step_lookup: "fault_step z = (f, z1) \<Longrightarrow> lookup z1 = lookup z"
  by (auto simp: fault_step_def lookup_def split: list.splits)

lemma fault_step_clock: "fault_step z = (f, z1) \<Longrightarrow> clock z1 = clock z"
  by (auto simp: fault_step_def split: list.splits)

section \<open>Lemmas: client calls without faults\<close>

lemma zk_exists_no_fault [zk_simps]:
  "faults z = [] \<Longrightarrow> zk_exists p w z = (Inr (lookup z p \<noteq> None), add_watch p WatchExist w z)"
  by (simp add: zk_exists_def)

lemma zk_create_no_fault [zk_simps]:
  "faults z = [] \<Longrightarrow>
   zk_create p d m z = (case srv_create p d m z of Inl e \<Rightarrow> (Inl e, z) | Inr z2 \<Rightarrow> (Inr p, own_create m p z2))"
  by (simp add: zk_create_def)

lemma zk_set_no_fault [zk_simps]:
  "faults z = [] \<Longrightarrow>
   zk_set p d v z = (case srv_set p d v z of Inl e \<Rightarrow> (Inl e, z) | Inr z2 \<Rightarrow> (Inr (), z2))"
  by (simp add: zk_set_def)

lemma zk_get_no_fault [zk_simps]:
  "faults z = [] \<Longrightarrow> zk_get p w z =
     (case lookup z p of None \<Rightarrow> (Inl ErrNoNode, z) | Some n \<Rightarrow> (Inr (zdata n), add_watch p WatchData w z))"
  by (simp add: zk_get_def)

lemma zk_children_no_fault [zk_simps]:
  "faults z = [] \<Longrightarrow> zk_children p w z =
     (case lookup z p of None \<Rightarrow> (Inl ErrNoNode, z)
      | Some _ \<Rightarrow> (Inr (children_of z p), add_watch p WatchChild w z))"
  by (simp add: zk_children_def)

section \<open>Lemmas: effect of the server writes\<close>

lemma srv_create_Inr:
  assumes "srv_create p d m z = Inr z'"
  shows "lookup z' = (lookup z)(p \<mapsto> \<lparr>zdata = d, zmode = m, zversion = 0\<rparr>)"
    and "faults z' = faults z" and "clock z' = clock z" and "lookup z p = None"
    and "ephemerals z' = ephemerals z" and "closed z' = closed z"
  using assms
  by (auto simp: srv_create_def lookup_def fun_eq_iff split: if_splits option.splits)

lemma srv_create_ok:
  assumes "valid_path p" "p \<noteq> ''/''" "lookup z (parent_path p) = Some pn"
    "zmode pn = CreatePersistent" "lookup z p = None"
  shows "\<exists>z'. srv_create p d m z = Inr z'"
  using assms by (simp add: srv_create_def)

lemma srv_set_Inr:
  assumes "srv_set p d v z = Inr z'"
  shows "\<exists>n. lookup z p = Some n \<and>
           lookup z' = (lookup z)(p \<mapsto> n\<lparr>zdata := d, zversion := Suc (zversion n)\<rparr>)"
    and "faults z' = faults z" and "clock z' = clock z"
    and "ephemerals z' = ephemerals z" and "closed z' = closed z"
  using assms
  by (auto simp: srv_set_def lookup_def fun_eq_iff split: if_splits option.splits)

lemma srv_set_any_version:
  "lookup z p = Some n \<Longrightarrow> \<exists>z'. srv_set p d (-1) z = Inr z'"
  by (simp add: srv_set_def)

lemma srv_delete_Inr:
  assumes "srv_delete p z = Inr z'"
  shows "lookup z' = (lookup z)(p := None)" and "ephemerals z' = removeAll p (ephemerals z)"
    and "chans z' = chans z" and "closed z' = closed z"
  using assms
  by (auto simp: srv_delete_def lookup_def fun_eq_iff delete_conv' fire_def split: if_splits)

lemma fault_step_session:
  "fault_step z = (f, z1) \<Longrightarrow> ephemerals z1 = ephemerals z \<and> closed z1 = closed z"
  by (auto simp: fault_step_def split: list.splits)

end
