(* ===== verification/Namespace.thy ===== *)
theory Namespace
  imports Zk
begin

text \<open>
  The namespace of \<open>src/binding/zk_manager.go\<close>: the root constants \<open>KITEQ\<close>,
  \<open>KITEQ_SERVER\<close>, \<open>KITEQ_PUB\<close>, \<open>KITEQ_SUB\<close> (lines 11-16), the paths the publishers
  and queries build from a topic and a group (lines 85, 101, 140-142, 229, 251), and the
  test of the \<open>Changed\<close> branch of the dispatch loop that decides whether a watched path
  is a binding leaf (lines 317-319).
\<close>

definition KITEQ :: path where "KITEQ = ''/kiteq''"
definition KITEQ_SERVER :: path where "KITEQ_SERVER = KITEQ @ ''/server''"
definition KITEQ_PUB :: path where "KITEQ_PUB = KITEQ @ ''/pub''"
definition KITEQ_SUB :: path where "KITEQ_SUB = KITEQ @ ''/sub''"

definition server_path :: "string \<Rightarrow> path" where
  "server_path topic = KITEQ_SERVER @ ''/'' @ topic"

definition pub_path :: "string \<Rightarrow> string \<Rightarrow> path" where
  "pub_path topic groupId = KITEQ_PUB @ ''/'' @ topic @ ''/'' @ groupId"

definition sub_path :: "string \<Rightarrow> path" where
  "sub_path topic = KITEQ_SUB @ ''/'' @ topic"

definition bind_name :: "string \<Rightarrow> string" where
  "bind_name groupId = groupId @ ''-bind''"

text \<open>Line 319: \<open>len(split) < 5 || strings.LastIndex(split[4], "-bind") <= 0\<close>; the
  index is only read when the split has at least five pieces.\<close>

definition not_bind_level :: "path \<Rightarrow> bool" where
  "not_bind_level p = (let split = split_on slash p in
     if length split < 5 then True else last_index (split ! 4) ''-bind'' \<le> 0)"

lemmas namespace_defs = KITEQ_def KITEQ_SERVER_def KITEQ_PUB_def KITEQ_SUB_def
  server_path_def pub_path_def sub_path_def bind_name_def

end
