(* ===== verification/Binding.thy ===== *)
theory Binding
  imports Prelude
begin

text \<open>
  The subscription binding and its codec. Neither is under \<open>src/\<close>: \<open>Binding\<close>,
  \<open>MarshalBinds\<close> and \<open>UmarshalBinds\<close> live in the binding package's other files, which
  the repository snapshot does not contain. Following spec \<section>3 and \<section>6, a binding is a
  record of topic, group, rule and persistence flag, and the codec is an opaque pair of
  functions passed to the operations that use it; \<open>codec_roundtrip\<close> is its
  contract (spec \<section>8.3). The publishing and query theories are stated over any codec.
\<close>

datatype bind_type = Direct | Regx | Fanout

record binding =
  GroupId :: string
  Topic :: string
  MessageType :: string
  BindType :: bind_type
  Persistent :: bool

text \<open>A Go \<open>error\<close> from the codec is its message. The contract of spec \<section>8.3: decoding
  an encoding gives back the same set of bindings, in any order.\<close>

record codec =
  MarshalBinds :: "binding list \<Rightarrow> string + bytes"
  UmarshalBinds :: "bytes \<Rightarrow> string + binding list"

definition codec_roundtrip :: "codec \<Rightarrow> bool" where
  "codec_roundtrip cd \<longleftrightarrow>
     (\<forall>bs d. MarshalBinds cd bs = Inr d \<longrightarrow> (\<exists>bs'. UmarshalBinds cd d = Inr bs' \<and> set bs' = set bs))"

end
