(* ===== verification/Watch.thy ===== *)
theory Watch
  imports Namespace Binding
begin

text \<open>
  WatchSession and EventDispatcher of \<open>src/binding/zk_manager.go\<close>: the event kinds
  handed to callbacks (\<open>ZkEvent\<close>, lines 22-29), the callback interface \<open>IWatcher\<close>
  (lines 32-35), the \<open>Watcher\<close> pairing a callback object with a buffered channel of
  capacity 10 (lines 37-46), \<open>getBindData\<close> (lines 283-299) and one iteration of the
  dispatch goroutine started by \<open>addWatch\<close> (lines 301-346). The goroutine's
  \<open>for\<close> loop is the blocking receive \<open>dispatch_step\<close> repeated by the scheduler of
  theory \<open>Session\<close>. The callbacks are implemented by the broker, outside this
  repository; each call is recorded as a value of \<open>callback\<close>, and a run's callbacks are
  its trace.
\<close>

section \<open>Data\<close>

text \<open>\<open>ZkEvent\<close>: \<open>Created = 1\<close>, \<open>Deleted = 2\<close>, \<open>Changed = 3\<close>, \<open>Child = 4\<close>.\<close>

datatype ZkEvent = Created | Deleted | Changed | Child

fun ZkEvent_code :: "ZkEvent \<Rightarrow> nat" where
  "ZkEvent_code Created = 1"
| "ZkEvent_code Deleted = 2"
| "ZkEvent_code Changed = 3"
| "ZkEvent_code Child = 4"

text \<open>The two methods of \<open>IWatcher\<close>; a \<open>nil\<close> binding slice is \<open>None\<close>.\<close>

datatype callback =
    EventNotify path ZkEvent "binding list option"
  | ChildWatcher path "string list"

text \<open>The path a callback reports.\<close>

fun cb_path :: "callback \<Rightarrow> path" where
  "cb_path (EventNotify p k bs) = p"
| "cb_path (ChildWatcher p cs) = p"

text \<open>A \<open>Watcher\<close>: the callback object (of any type \<open>'w\<close>) and its channel. Channels are
  names; the service keeps their buffers (\<^typ>\<open>zk\<close>, field \<open>chans\<close>). \<open>make(chan
  zk.Event, 10)\<close> is a channel no one uses yet, with capacity \<open>watcher_cap\<close>.\<close>

record 'w Watcher =
  watcher :: 'w
  zkwatcher :: chan

definition watcher_cap :: nat where "watcher_cap = 10"

definition chan_unused :: "chan \<Rightarrow> zk \<Rightarrow> bool" where
  "chan_unused c z \<longleftrightarrow> chans z c = [] \<and> (\<forall>w \<in> set (watches z). snd (snd w) \<noteq> c)
     \<and> (\<forall>e \<in> set (pending z). fst e \<noteq> c)"

definition NewWatcher :: "'w \<Rightarrow> chan \<Rightarrow> 'w Watcher" where
  "NewWatcher w c = \<lparr>watcher = w, zkwatcher = c\<rparr>"

section \<open>The process state\<close>

text \<open>What the binding package's callers share: the coordination service (with this
  session's fault oracle), the dispatch goroutines running, each with the path and
  the \<open>Watcher\<close> it was started with, and the callbacks invoked so far, each with the
  callback object that received it.\<close>

record 'w sys =
  zs :: zk
  tasks :: "(path \<times> 'w Watcher) list"
  trace :: "('w \<times> callback) list"

text \<open>Lines 301-304: \<open>addWatch\<close> only starts the goroutine.\<close>

definition addWatch :: "path \<Rightarrow> 'w Watcher \<Rightarrow> 'w sys \<Rightarrow> 'w sys" where
  "addWatch path nwatcher s = s\<lparr>tasks := tasks s @ [(path, nwatcher)]\<rparr>"

section \<open>getBindData\<close>

text \<open>Lines 283-299: \<open>Get\<close> with the watcher's channel (arming a data watch when the
  node exists), then decode. Its error is either the service's or the codec's.\<close>

datatype bind_error = GetErr zk_error | DecodeErr string

definition getBindData :: "codec \<Rightarrow> path \<Rightarrow> chan \<Rightarrow> zk \<Rightarrow> (bind_error + binding list) \<times> zk" where
  "getBindData cd path zkw z =
     (case zk_get path (Some zkw) z of
        (Inl err, z1) \<Rightarrow> (Inl (GetErr err), z1)
      | (Inr bindData, z1) \<Rightarrow>
          (case UmarshalBinds cd bindData of
             Inl err \<Rightarrow> (Inl (DecodeErr err), z1)
           | Inr binding \<Rightarrow> (Inr binding, z1)))"

section \<open>The dispatch goroutine\<close>

text \<open>Lines 308-342: the body of the loop for a received \<open>change\<close>. The goroutine was
  started for \<open>path\<close> and every branch works on that \<open>path\<close>; \<open>change.Path\<close> is never
  read. \<open>Exists\<close> re-arms with its result ignored; a session event matches no case.\<close>

definition handle_event :: "codec \<Rightarrow> path \<Rightarrow> chan \<Rightarrow> event \<Rightarrow> zk \<Rightarrow> callback list \<times> zk" where
  "handle_event cd path zkw change z =
     (case ev_type change of
        EvCreated \<Rightarrow> ([EventNotify path Created None], snd (zk_exists path (Some zkw) z))
      | EvDeleted \<Rightarrow> ([EventNotify path Deleted None], snd (zk_exists path (Some zkw) z))
      | EvChanged \<Rightarrow>
          (if not_bind_level path then ([], snd (zk_exists path (Some zkw) z))
           else (case getBindData cd path zkw z of
                   (Inl err, z1) \<Rightarrow> ([], z1)
                 | (Inr binding, z1) \<Rightarrow> ([EventNotify path Changed (Some binding)], z1)))
      | EvChild \<Rightarrow>
          (case zk_children path (Some zkw) z of
             (Inl err, z1) \<Rightarrow> ([], z1)
           | (Inr childnodes, z1) \<Rightarrow> ([ChildWatcher path childnodes], z1))
      | EvSession \<Rightarrow> ([], z))"

text \<open>Line 307, \<open>change := <-nwatcher.zkwatcher\<close>: block while the channel is empty
  (\<open>None\<close>), otherwise take its first event and handle it. \<open>run_task\<close> is one
  iteration of task \<open>i\<close> in the process state, recording its callbacks.\<close>

definition dispatch_step :: "codec \<Rightarrow> path \<Rightarrow> chan \<Rightarrow> zk \<Rightarrow> (callback list \<times> zk) option" where
  "dispatch_step cd path zkw z =
     (case chans z zkw of
        [] \<Rightarrow> None
      | change # rest \<Rightarrow> Some (handle_event cd path zkw change (z\<lparr>chans := (chans z)(zkw := rest)\<rparr>)))"

definition run_task :: "codec \<Rightarrow> nat \<Rightarrow> 'w sys \<Rightarrow> 'w sys option" where
  "run_task cd i s =
     (if i < length (tasks s) then
        (case tasks s ! i of (path, nwatcher) \<Rightarrow>
          (case dispatch_step cd path (zkwatcher nwatcher) (zs s) of
             None \<Rightarrow> None
           | Some (cbs, z') \<Rightarrow> Some (s\<lparr>zs := z', trace := trace s @ map (Pair (watcher nwatcher)) cbs\<rparr>)))
      else None)"

section \<open>Lemmas: frame of the reads\<close>

text \<open>The reads \<open>Exists\<close>, \<open>Get\<close> and \<open>Children\<close> change no node, no channel and no
  queued event; they only add a watch and consume at most one fault entry.\<close>

definition read_frame :: "zk \<Rightarrow> zk \<Rightarrow> bool" where
  "read_frame z z' \<longleftrightarrow> lookup z' = lookup z \<and> chans z' = chans z \<and> pending z' = pending z
     \<and> clock z' = clock z \<and> (faults z' = faults z \<or> faults z' = drop 1 (faults z))"

lemma read_frame_refl [simp]: "read_frame z z"
  by (simp add: read_frame_def)

lemma read_frame_trans: "read_frame z1 z2 \<Longrightarrow> read_frame z2 z3 \<Longrightarrow> faults z1 = [] \<Longrightarrow> read_frame z1 z3"
  by (auto simp: read_frame_def)

lemma add_watch_queues [simp]: "chans (add_watch p k w z) = chans z" "pending (add_watch p k w z) = pending z"
  by (simp_all add: add_watch_def split: option.split)

lemma fault_step_frame: "fault_step z = (f, z1) \<Longrightarrow> read_frame z z1"
  by (auto simp: fault_step_def read_frame_def lookup_def split: list.splits)

lemma read_frame_add_watch [simp]: "read_frame z (add_watch p k w z1) = read_frame z z1"
  by (simp add: read_frame_def)

lemma exists_read_frame: "read_frame z (snd (zk_exists p w z))"
  by (auto simp: zk_exists_def fault_step_frame split: prod.split)

lemma get_read_frame: "read_frame z (snd (zk_get p w z))"
  by (auto simp: zk_get_def fault_step_frame split: prod.split option.split)

lemma children_read_frame: "read_frame z (snd (zk_children p w z))"
  by (auto simp: zk_children_def fault_step_frame split: prod.split option.split)

lemma getBindData_frame: "read_frame z (snd (getBindData cd p c z))"
  using get_read_frame [of z p "Some c"]
  by (auto simp: getBindData_def split: prod.split sum.split)

lemma handle_event_frame: "read_frame z (snd (handle_event cd path c e z))"
  using exists_read_frame [of z path "Some c"] children_read_frame [of z path "Some c"]
    getBindData_frame [of z cd path c]
  by (auto simp: handle_event_def split: event_type.split prod.split sum.split)

section \<open>Lemmas: the branches of the dispatch loop\<close>

lemma getBindData_no_fault [zk_simps]:
  "faults z = [] \<Longrightarrow> getBindData cd p c z =
     (case lookup z p of
        None \<Rightarrow> (Inl (GetErr ErrNoNode), z)
      | Some n \<Rightarrow> (case UmarshalBinds cd (zdata n) of
                    Inl e \<Rightarrow> (Inl (DecodeErr e), add_watch p WatchData (Some c) z)
                  | Inr bs \<Rightarrow> (Inr bs, add_watch p WatchData (Some c) z)))"
  by (simp add: getBindData_def zk_get_no_fault split: option.split sum.split)

text \<open>Every callback of one iteration names the goroutine's own path.\<close>

lemma handle_event_cb_path: "cb \<in> set (fst (handle_event cd path c e z)) \<Longrightarrow> cb_path cb = path"
  by (auto simp: handle_event_def split: event_type.splits prod.splits sum.splits if_splits)

lemma watches_add_watch [simp]: "watches (add_watch p k (Some c) z) = watches z @ [(p, k, c)]"
  by (simp add: add_watch_def)

lemma children_of_add_watch [simp]: "children_of (add_watch p k w z) = children_of z"
  by (simp add: children_of_def fun_eq_iff)

lemma addWatch_fields [simp]: "zs (addWatch p nw s) = zs s" "trace (addWatch p nw s) = trace s"
  "tasks (addWatch p nw s) = tasks s @ [(p, nw)]"
  by (simp_all add: addWatch_def)

text \<open>A data change fires every existence and data watch on the node.\<close>

lemma srv_set_fires:
  assumes "lookup z p = Some n" "(p, k, c) \<in> set (watches z)" "k \<in> {WatchExist, WatchData}"
  shows "\<exists>z'. srv_set p d (-1) z = Inr z' \<and> (c, \<lparr>ev_type = EvChanged, ev_path = p\<rparr>) \<in> set (pending z')"
proof -
  have "(c, \<lparr>ev_type = EvChanged, ev_path = p\<rparr>)
          \<in> set [(snd (snd w), \<lparr>ev_type = EvChanged, ev_path = p\<rparr>). w \<leftarrow> watches z, fires p [WatchExist, WatchData] w]"
    using assms(2,3) by (force simp: fires_def)
  with assms(1) show ?thesis by (simp add: srv_set_def fire_def lookup_def)
qed

text \<open>A create fires every child watch on the new node's parent.\<close>

lemma srv_create_fires_child:
  assumes "srv_create q d m z = Inr z'" "(parent_path q, WatchChild, c) \<in> set (watches z)"
  shows "(c, \<lparr>ev_type = EvChild, ev_path = parent_path q\<rparr>) \<in> set (pending z')"
proof -
  let ?z1 = "fire q [WatchExist] EvCreated (z\<lparr>nodes := AList.update q \<lparr>zdata = d, zmode = m, zversion = 0\<rparr> (nodes z)\<rparr>)"
  have z': "z' = fire (parent_path q) [WatchChild] EvChild ?z1"
    using assms(1) by (auto simp: srv_create_def split: if_splits option.splits)
  have "(parent_path q, WatchChild, c) \<in> set (watches ?z1)"
    using assms(2) by (simp add: fire_def fires_def)
  then show ?thesis unfolding z' by (force simp: fire_def fires_def)
qed

section \<open>Properties of the dispatch loop\<close>

text \<open>C10 (spec \<section>4.5 and \<section>8.5, non-binding Changed events). A \<open>Changed\<close> event
  handled by the goroutine of a path that is not a binding leaf (such as
  \<open>/kiteq/sub/A\<close>, four pieces) invokes no callback and re-arms an existence watch on
  the path with the goroutine's channel, so the next data change of the path queues an
  event for that channel.\<close>

theorem handle_event_nonbind_changed:
  assumes "ev_type e = EvChanged" "not_bind_level path" "faults z = []" "lookup z path = Some n"
  shows "handle_event cd path c e z = ([], add_watch path WatchExist (Some c) z)
    \<and> (\<exists>z''. srv_set path d (-1) (snd (handle_event cd path c e z)) = Inr z''
             \<and> (c, \<lparr>ev_type = EvChanged, ev_path = path\<rparr>) \<in> set (pending z''))"
proof -
  have h: "handle_event cd path c e z = ([], add_watch path WatchExist (Some c) z)"
    using assms by (simp add: handle_event_def zk_exists_no_fault)
  have "\<exists>z''. srv_set path d (-1) (add_watch path WatchExist (Some c) z) = Inr z''
             \<and> (c, \<lparr>ev_type = EvChanged, ev_path = path\<rparr>) \<in> set (pending z'')"
    by (rule srv_set_fires [where k = WatchExist]) (use assms(4) in simp_all)
  with h show ?thesis by simp
qed

theorem handle_event_nonbind_changed_witness:
  "let z = zk_init\<lparr>nodes := [(''/'', empty_dir), (''/kiteq/sub/A'', empty_dir)]\<rparr>;
       e = \<lparr>ev_type = EvChanged, ev_path = ''/kiteq/sub/A''\<rparr>;
       cd = \<lparr>MarshalBinds = (\<lambda>bs. Inr []), UmarshalBinds = (\<lambda>d. Inr [])\<rparr>
   in handle_event cd ''/kiteq/sub/A'' 3 e z = ([], add_watch ''/kiteq/sub/A'' WatchExist (Some 3) z)
    \<and> (\<exists>z''. srv_set ''/kiteq/sub/A'' ''x'' (-1) (snd (handle_event cd ''/kiteq/sub/A'' 3 e z)) = Inr z''
             \<and> (3, \<lparr>ev_type = EvChanged, ev_path = ''/kiteq/sub/A''\<rparr>) \<in> set (pending z''))"
  unfolding Let_def
  by (rule handle_event_nonbind_changed)
     (simp_all add: zk_init_def lookup_def not_bind_level_def slash_def)

text \<open>C11 (spec \<section>4.5, binding-leaf Changed events). For a binding-leaf path whose
  payload decodes, the goroutine reads the payload, re-arming a data watch, and invokes
  \<open>EventNotify(path, Changed, bindings)\<close> with the decoded bindings.\<close>

theorem handle_event_bind_changed:
  assumes "ev_type e = EvChanged" "\<not> not_bind_level path" "faults z = []" "lookup z path = Some n"
    "UmarshalBinds cd (zdata n) = Inr bs"
  shows "handle_event cd path c e z = ([EventNotify path Changed (Some bs)], add_watch path WatchData (Some c) z)"
  using assms by (simp add: handle_event_def getBindData_no_fault)

theorem handle_event_bind_changed_witness:
  "let z = zk_init\<lparr>nodes := [(''/'', empty_dir), (''/kiteq/sub/A/G-bind'', empty_dir)]\<rparr>;
       cd = \<lparr>MarshalBinds = (\<lambda>bs. Inr []), UmarshalBinds = (\<lambda>d. Inr [])\<rparr>;
       e = \<lparr>ev_type = EvChanged, ev_path = ''/kiteq/sub/A/G-bind''\<rparr>
   in handle_event cd ''/kiteq/sub/A/G-bind'' 3 e z
        = ([EventNotify ''/kiteq/sub/A/G-bind'' Changed (Some [])], add_watch ''/kiteq/sub/A/G-bind'' WatchData (Some 3) z)"
  unfolding Let_def
  by (rule handle_event_bind_changed [where n = empty_dir])
     (simp_all add: zk_init_def lookup_def not_bind_level_def slash_def last_index_def occurs_at_def)

text \<open>C12 (spec \<section>4.5 and \<section>7, decode errors in the dispatch loop). When the
  payload of a binding leaf does not decode, the event is dropped with no callback, and
  the data watch armed by the read stays in place.\<close>

theorem handle_event_decode_failure:
  assumes "ev_type e = EvChanged" "\<not> not_bind_level path" "faults z = []" "lookup z path = Some n"
    "UmarshalBinds cd (zdata n) = Inl err"
  shows "fst (handle_event cd path c e z) = [] \<and> (path, WatchData, c) \<in> set (watches (snd (handle_event cd path c e z)))"
  using assms by (simp add: handle_event_def getBindData_no_fault)

theorem handle_event_decode_failure_witness:
  "let z = zk_init\<lparr>nodes := [(''/'', empty_dir), (''/kiteq/sub/A/G-bind'', empty_dir)]\<rparr>;
       cd = \<lparr>MarshalBinds = (\<lambda>bs. Inr []), UmarshalBinds = (\<lambda>d. Inl ''corrupt'')\<rparr>;
       e = \<lparr>ev_type = EvChanged, ev_path = ''/kiteq/sub/A/G-bind''\<rparr>
   in fst (handle_event cd ''/kiteq/sub/A/G-bind'' 3 e z) = []
    \<and> (''/kiteq/sub/A/G-bind'', WatchData, 3) \<in> set (watches (snd (handle_event cd ''/kiteq/sub/A/G-bind'' 3 e z)))"
  unfolding Let_def
  by (rule handle_event_decode_failure [where n = empty_dir and err = "''corrupt''"])
     (simp_all add: zk_init_def lookup_def not_bind_level_def slash_def last_index_def occurs_at_def)

text \<open>C26 (spec \<section>4.5, child-list changes). A \<open>Child\<close> event handled by the goroutine
  of an existing path, without faults, invokes \<open>ChildWatcher(path, children)\<close> with the
  path's current children and re-arms a child watch with the goroutine's channel, so
  the next node created under the path queues a \<open>Child\<close> event for that channel.\<close>

theorem handle_event_child:
  assumes "ev_type e = EvChild" "faults z = []" "lookup z path = Some n"
  shows "handle_event cd path c e z = ([ChildWatcher path (children_of z path)], add_watch path WatchChild (Some c) z)
    \<and> (\<forall>q d m z''. parent_path q = path \<longrightarrow> srv_create q d m (snd (handle_event cd path c e z)) = Inr z''
          \<longrightarrow> (c, \<lparr>ev_type = EvChild, ev_path = path\<rparr>) \<in> set (pending z''))"
proof -
  have h: "handle_event cd path c e z = ([ChildWatcher path (children_of z path)], add_watch path WatchChild (Some c) z)"
    using assms by (simp add: handle_event_def zk_children_no_fault)
  have "(c, \<lparr>ev_type = EvChild, ev_path = path\<rparr>) \<in> set (pending z'')"
    if "parent_path q = path" "srv_create q d m (add_watch path WatchChild (Some c) z) = Inr z''" for q d m z''
    using srv_create_fires_child [OF that(2)] that(1) by simp
  with h show ?thesis by simp
qed

theorem handle_event_child_witness:
  "let z = zk_init\<lparr>nodes := [(''/'', empty_dir), (''/kiteq'', empty_dir), (''/kiteq/server'', empty_dir),
                             (''/kiteq/server/A'', empty_dir)]\<rparr>;
       e = \<lparr>ev_type = EvChild, ev_path = ''/kiteq/server/A''\<rparr>;
       cd = \<lparr>MarshalBinds = (\<lambda>bs. Inr []), UmarshalBinds = (\<lambda>d. Inr [])\<rparr>
   in ev_type e = EvChild \<and> faults z = [] \<and> lookup z ''/kiteq/server/A'' = Some empty_dir
    \<and> fst (handle_event cd ''/kiteq/server/A'' 1 e z) = [ChildWatcher ''/kiteq/server/A'' []]
    \<and> (\<forall>z''. srv_create ''/kiteq/server/A/h:2'' [] CreateEphemeral (snd (handle_event cd ''/kiteq/server/A'' 1 e z)) = Inr z''
          \<longrightarrow> (1, \<lparr>ev_type = EvChild, ev_path = ''/kiteq/server/A''\<rparr>) \<in> set (pending z''))"
proof -
  define z where "z = zk_init\<lparr>nodes := [(''/'', empty_dir), (''/kiteq'', empty_dir), (''/kiteq/server'', empty_dir),
                             (''/kiteq/server/A'', empty_dir)]\<rparr>"
  define e where "e = \<lparr>ev_type = EvChild, ev_path = ''/kiteq/server/A''\<rparr>"
  define cd where "cd = \<lparr>MarshalBinds = (\<lambda>bs::binding list. Inr ([]::bytes)), UmarshalBinds = (\<lambda>d::bytes. Inr ([]::binding list))\<rparr>"
  have h: "ev_type e = EvChild" "faults z = []" "lookup z ''/kiteq/server/A'' = Some empty_dir"
    by (simp_all add: z_def e_def zk_init_def lookup_def)
  have c: "children_of z ''/kiteq/server/A'' = []"
    by (simp add: z_def children_of_def parent_path_def slash_def)
  have p: "parent_path ''/kiteq/server/A/h:2'' = ''/kiteq/server/A''" by (simp add: parent_path_def slash_def)
  from handle_event_child [OF h, of cd 1] c p h show ?thesis
    unfolding Let_def z_def [symmetric] e_def [symmetric] cd_def [symmetric] by auto
qed

end
