(* ===== verification/Discovery.thy ===== *)
theory Discovery
  imports Watch
begin

text \<open>
  DiscoveryQueries of \<open>src/binding/zk_manager.go\<close>: \<open>GetQServerAndWatch\<close> (lines
  226-246) and \<open>GetBindAndWatch\<close> (lines 249-280) with its loop over the group ids
  (lines 268-277). Both arm an existence watch, return an empty list for an absent
  topic, arm a children watch and start the dispatch goroutine for the topic's path;
  \<open>GetBindAndWatch\<close> then reads every group's payload with a data watch on the same
  channel. The result of \<open>Exists\<close> is read with its error dropped, as the code does
  (\<open>exist, _, _ :=\<close>): a failed \<open>Exists\<close> reads as \<open>false\<close>.
\<close>

section \<open>Operations\<close>

definition GetQServerAndWatch :: "string \<Rightarrow> 'w Watcher \<Rightarrow> 'w sys \<Rightarrow> (zk_error + string list) \<times> 'w sys" where
  "GetQServerAndWatch topic nwatcher s =
     (let path = server_path topic in
      case zk_exists path (Some (zkwatcher nwatcher)) (zs s) of
        (r, z1) \<Rightarrow>
          if \<not> result_or False r then (Inr [], s\<lparr>zs := z1\<rparr>)
          else (case zk_children path (Some (zkwatcher nwatcher)) z1 of
                  (Inl err, z2) \<Rightarrow> (Inl err, s\<lparr>zs := z2\<rparr>)
                | (Inr children, z2) \<Rightarrow> (Inr children, addWatch path nwatcher (s\<lparr>zs := z2\<rparr>))))"

text \<open>Lines 268-277: \<open>hps = append(hps, binds...)\<close> for every group whose payload reads
  and decodes; a group whose \<open>getBindData\<close> fails is skipped.\<close>

fun bind_loop :: "codec \<Rightarrow> path \<Rightarrow> chan \<Rightarrow> binding list \<Rightarrow> string list \<Rightarrow> zk \<Rightarrow> binding list \<times> zk" where
  "bind_loop cd path zkw hps [] z = (hps, z)"
| "bind_loop cd path zkw hps (groupId # groupIds) z =
     (case getBindData cd (path @ ''/'' @ groupId) zkw z of
        (Inl err, z1) \<Rightarrow> bind_loop cd path zkw hps groupIds z1
      | (Inr binds, z1) \<Rightarrow> bind_loop cd path zkw (hps @ binds) groupIds z1)"

definition GetBindAndWatch :: "codec \<Rightarrow> string \<Rightarrow> 'w Watcher \<Rightarrow> 'w sys \<Rightarrow> (zk_error + binding list) \<times> 'w sys" where
  "GetBindAndWatch cd topic nwatcher s =
     (let path = sub_path topic in
      case zk_exists path (Some (zkwatcher nwatcher)) (zs s) of
        (r, z1) \<Rightarrow>
          if \<not> result_or False r then (Inr [], s\<lparr>zs := z1\<rparr>)
          else (case zk_children path (Some (zkwatcher nwatcher)) z1 of
                  (Inl err, z2) \<Rightarrow> (Inl err, s\<lparr>zs := z2\<rparr>)
                | (Inr groupIds, z2) \<Rightarrow>
                    (let s2 = addWatch path nwatcher (s\<lparr>zs := z2\<rparr>) in
                     case bind_loop cd path (zkwatcher nwatcher) [] groupIds (zs s2) of
                       (hps, z3) \<Rightarrow> (Inr hps, s2\<lparr>zs := z3\<rparr>))))"

section \<open>Abstract specification\<close>

text \<open>The bindings a group contributes to the aggregate: the decoded payload of its
  node, nothing when the node is gone or its payload does not decode.\<close>

definition decoded_binds :: "codec \<Rightarrow> zk \<Rightarrow> path \<Rightarrow> string \<Rightarrow> binding list" where
  "decoded_binds cd z path groupId =
     (case lookup z (path @ ''/'' @ groupId) of
        None \<Rightarrow> []
      | Some n \<Rightarrow> (case UmarshalBinds cd (zdata n) of Inl _ \<Rightarrow> [] | Inr bs \<Rightarrow> bs))"

section \<open>Lemmas\<close>

text \<open>Without faults, the group loop appends the decoded bindings of every group in
  order and changes no node.\<close>

lemma bind_loop_no_fault:
  "faults z = [] \<Longrightarrow>
   fst (bind_loop cd path c hps gs z) = hps @ concat (map (decoded_binds cd z path) gs)
   \<and> read_frame z (snd (bind_loop cd path c hps gs z)) \<and> faults (snd (bind_loop cd path c hps gs z)) = []"
proof (induction gs arbitrary: hps z)
  case Nil
  then show ?case by simp
next
  case (Cons g gs)
  then show ?case
    by (auto simp: getBindData_no_fault decoded_binds_def read_frame_def split: option.split sum.split)
qed

section \<open>Properties of the queries\<close>

text \<open>C13 (spec \<section>4.6 and \<section>8.4, absent topic). Without faults, a server query
  for a topic with no node returns the empty list and no error, arms only the
  existence watch, does not read the children and starts no dispatch goroutine.\<close>

theorem GetQServerAndWatch_absent:
  assumes "faults (zs s) = []" "lookup (zs s) (server_path topic) = None"
  shows "GetQServerAndWatch topic nw s
           = (Inr [], s\<lparr>zs := add_watch (server_path topic) WatchExist (Some (zkwatcher nw)) (zs s)\<rparr>)"
  using assms by (simp add: GetQServerAndWatch_def zk_exists_no_fault result_or_def)

theorem GetQServerAndWatch_absent_witness:
  "GetQServerAndWatch ''A'' (NewWatcher (0::nat) 1) \<lparr>zs = zk_init, tasks = [], trace = []\<rparr>
     = (Inr [], \<lparr>zs = add_watch ''/kiteq/server/A'' WatchExist (Some 1) zk_init, tasks = [], trace = []\<rparr>)"
  using GetQServerAndWatch_absent [of "\<lparr>zs = zk_init, tasks = [], trace = []\<rparr>" "''A''" "NewWatcher (0::nat) 1"]
  by (simp add: zk_init_def lookup_def server_path_def namespace_defs NewWatcher_def)

lemma GetBindAndWatch_no_fault:
  assumes "faults (zs s) = []" "lookup (zs s) (sub_path topic) \<noteq> None"
  shows "\<exists>s'. GetBindAndWatch cd topic nw s
     = (Inr (concat (map (decoded_binds cd (zs s) (sub_path topic)) (children_of (zs s) (sub_path topic)))), s')
     \<and> tasks s' = tasks s @ [(sub_path topic, nw)] \<and> trace s' = trace s \<and> lookup (zs s') = lookup (zs s)"
proof -
  let ?p = "sub_path topic" and ?c = "zkwatcher nw"
  let ?z2 = "add_watch ?p WatchChild (Some ?c) (add_watch ?p WatchExist (Some ?c) (zs s))"
  have l: "lookup ?z2 = lookup (zs s)" "faults ?z2 = []" "children_of ?z2 ?p = children_of (zs s) ?p"
    using assms(1) by (simp_all add: children_of_def)
  have d: "decoded_binds cd ?z2 ?p = decoded_binds cd (zs s) ?p"
    using l(1) by (simp add: decoded_binds_def fun_eq_iff)
  obtain hps z3 where bl: "bind_loop cd ?p ?c [] (children_of (zs s) ?p) ?z2 = (hps, z3)"
    by fastforce
  have run: "GetBindAndWatch cd topic nw s = (Inr hps, (addWatch ?p nw (s\<lparr>zs := ?z2\<rparr>))\<lparr>zs := z3\<rparr>)"
    using assms bl by (auto simp: GetBindAndWatch_def zk_exists_no_fault zk_children_no_fault result_or_def Let_def)
  from bind_loop_no_fault [OF l(2), of cd ?p ?c "[]" "children_of (zs s) ?p"] bl d l(1)
  have "hps = concat (map (decoded_binds cd (zs s) ?p) (children_of (zs s) ?p))" "lookup z3 = lookup (zs s)"
    by (simp_all add: read_frame_def)
  with run show ?thesis by simp
qed

text \<open>C14 (spec \<section>4.6 and \<section>8.6, partial-success aggregation). Without faults, a
  binding query for an existing topic returns the concatenation, in child order, of
  the decoded payloads of the groups whose payload decodes, omitting the others without
  an error, starts one dispatch goroutine for the topic's path, and changes no node.\<close>

theorem GetBindAndWatch_aggregate:
  assumes "faults (zs s) = []" "lookup (zs s) (sub_path topic) \<noteq> None"
  shows "\<exists>s'. GetBindAndWatch cd topic nw s
     = (Inr (concat (map (decoded_binds cd (zs s) (sub_path topic)) (children_of (zs s) (sub_path topic)))), s')
     \<and> tasks s' = tasks s @ [(sub_path topic, nw)] \<and> trace s' = trace s \<and> lookup (zs s') = lookup (zs s)"
  using assms by (rule GetBindAndWatch_no_fault)

theorem GetBindAndWatch_aggregate_witness:
  "let b1 = \<lparr>GroupId = ''G1'', Topic = ''A'', MessageType = ''rule1'', BindType = Direct, Persistent = True\<rparr>;
       cd = \<lparr>MarshalBinds = (\<lambda>bs. Inr ''ok''),
             UmarshalBinds = (\<lambda>d. if d = ''ok'' then Inr [b1] else Inl ''corrupt'')\<rparr>;
       s = \<lparr>zs = zk_init\<lparr>nodes := [(''/'', empty_dir), (''/kiteq/sub/A'', empty_dir),
                  (''/kiteq/sub/A/G1-bind'', empty_dir\<lparr>zdata := ''ok''\<rparr>),
                  (''/kiteq/sub/A/G2-bind'', empty_dir\<lparr>zdata := ''??''\<rparr>)]\<rparr>,
            tasks = [], trace = []\<rparr>
   in \<exists>s'. GetBindAndWatch cd ''A'' (NewWatcher (0::nat) 1) s = (Inr [b1], s')
        \<and> tasks s' = [(''/kiteq/sub/A'', NewWatcher 0 1)]"
proof -
  let ?b1 = "\<lparr>GroupId = ''G1'', Topic = ''A'', MessageType = ''rule1'', BindType = Direct, Persistent = True\<rparr>"
  let ?cd = "\<lparr>MarshalBinds = (\<lambda>bs. Inr ''ok''),
             UmarshalBinds = (\<lambda>d. if d = ''ok'' then Inr [?b1] else Inl ''corrupt'')\<rparr> :: codec"
  let ?s = "\<lparr>zs = zk_init\<lparr>nodes := [(''/'', empty_dir), (''/kiteq/sub/A'', empty_dir),
                  (''/kiteq/sub/A/G1-bind'', empty_dir\<lparr>zdata := ''ok''\<rparr>),
                  (''/kiteq/sub/A/G2-bind'', empty_dir\<lparr>zdata := ''??''\<rparr>)]\<rparr>,
            tasks = [], trace = []\<rparr> :: nat sys"
  have h: "faults (zs ?s) = []" "lookup (zs ?s) (sub_path ''A'') \<noteq> None"
    by (simp_all add: zk_init_def lookup_def namespace_defs)
  have c: "children_of (zs ?s) (sub_path ''A'') = [''G1-bind'', ''G2-bind'']"
    by (simp add: zk_init_def children_of_def parent_path_def slash_def namespace_defs)
  have d: "concat (map (decoded_binds ?cd (zs ?s) (sub_path ''A'')) [''G1-bind'', ''G2-bind'']) = [?b1]"
    by (simp add: zk_init_def decoded_binds_def lookup_def namespace_defs empty_dir_def)
  from GetBindAndWatch_aggregate [OF h, of ?cd "NewWatcher 0 1"] obtain s' where
    run: "GetBindAndWatch ?cd ''A'' (NewWatcher 0 1) ?s
            = (Inr (concat (map (decoded_binds ?cd (zs ?s) (sub_path ''A'')) (children_of (zs ?s) (sub_path ''A'')))), s')"
    and t: "tasks s' = tasks ?s @ [(sub_path ''A'', NewWatcher 0 1)]"
    by blast
  have "GetBindAndWatch ?cd ''A'' (NewWatcher 0 1) ?s = (Inr [?b1], s')"
    using run unfolding c d .
  with t show ?thesis by (simp add: Let_def namespace_defs)
qed

text \<open>C22 (spec \<section>4.6 and \<section>7, children read failure). When the children read of a
  binding query fails after the topic was found, the query returns the error and
  starts no goroutine, but the existence watch it armed stays on the channel: its
  event will be delivered to a channel that no goroutine reads.\<close>

theorem GetBindAndWatch_children_error:
  assumes "faults (zs s) = False # True # fs" "lookup (zs s) (sub_path t) \<noteq> None"
  shows "GetBindAndWatch cd t nw s
    = (Inl ErrConnectionLoss, s\<lparr>zs := (add_watch (sub_path t) WatchExist (Some (zkwatcher nw)) (zs s))\<lparr>faults := fs\<rparr>\<rparr>)"
  using assms by (auto simp: GetBindAndWatch_def Let_def zk_exists_def zk_children_def fault_step_def
      result_or_def add_watch_def lookup_def)

theorem GetBindAndWatch_children_error_witness:
  "let s = (\<lparr>zs = zk_init\<lparr>nodes := [(''/'', empty_dir), (''/kiteq/sub/A'', empty_dir)], faults := [False, True]\<rparr>,
             tasks = [], trace = []\<rparr> :: nat sys);
       cd = \<lparr>MarshalBinds = (\<lambda>bs. Inr []), UmarshalBinds = (\<lambda>d. Inr [])\<rparr>
   in lookup (zs s) (sub_path ''A'') \<noteq> None
    \<and> GetBindAndWatch cd ''A'' (NewWatcher 0 1) s
        = (Inl ErrConnectionLoss, s\<lparr>zs := (add_watch (sub_path ''A'') WatchExist (Some 1) (zs s))\<lparr>faults := []\<rparr>\<rparr>)"
  unfolding Let_def
  using GetBindAndWatch_children_error
    [of "\<lparr>zs = zk_init\<lparr>nodes := [(''/'', empty_dir), (''/kiteq/sub/A'', empty_dir)], faults := [False, True]\<rparr>,
          tasks = [], trace = []\<rparr> :: nat sys" "[]" "''A''"
        "\<lparr>MarshalBinds = (\<lambda>bs::binding list. Inr ([]::bytes)), UmarshalBinds = (\<lambda>d::bytes. Inr ([]::binding list))\<rparr>"
        "NewWatcher 0 1"]
  by (simp add: zk_init_def lookup_def namespace_defs NewWatcher_def)

end
