(* ===== verification/Registrar.thy ===== *)
theory Registrar
  imports Namespace
begin

text \<open>
  PathRegistrar and bootstrap of \<open>src/binding/zk_manager.go\<close>: \<open>NewZKManager\<close>
  (lines 48-79), \<open>registePath\<close> (154-167), \<open>traverseCreatePath\<close> (169-189) and
  \<open>innerCreatePath\<close> (192-224) with its confirmation poll (202-209). The session
  handle of \<open>ZKManager\<close> is the state \<^typ>\<open>zk\<close> passed through every call; a Go
  \<open>error\<close> is \<^typ>\<open>zk_error option\<close> (\<open>None\<close> is \<open>nil\<close>); a \<open>[]byte\<close> that may be
  \<open>nil\<close> is \<^typ>\<open>bytes option\<close>.
\<close>

section \<open>Operations\<close>

text \<open>Lines 202-209: up to five \<open>Exists\<close> calls, error ignored (a failed call reads as
  absent), sleeping \<open>i * 100\<close> ms after each miss.\<close>

function confirm_poll :: "path \<Rightarrow> nat \<Rightarrow> zk \<Rightarrow> zk" where
  "confirm_poll tmppath i z =
     (if i < 5 then
        (let (r, z1) = zk_exists tmppath None z in
         if \<not> result_or False r then confirm_poll tmppath (Suc i) (sleep (i * 100) z1)
         else z1)
      else z)"
  by pat_completeness auto
termination
  by (relation "measure (\<lambda>(p, i, z). 5 - i)") auto

definition innerCreatePath :: "path \<Rightarrow> bytes option \<Rightarrow> create_type \<Rightarrow> zk \<Rightarrow> zk_error option \<times> zk" where
  "innerCreatePath tmppath data createType z =
     (let (r, z1) = zk_exists tmppath None z in
      case r of
        Inr exist \<Rightarrow>
          if \<not> exist then
            (case zk_create tmppath (case data of None \<Rightarrow> [] | Some d \<Rightarrow> d) createType z1 of
               (Inl err, z2) \<Rightarrow> (Some err, z2)
             | (Inr _, z2) \<Rightarrow> (None, confirm_poll tmppath 0 z2))
          else
            (case data of
               None \<Rightarrow> (None, z1)
             | Some d \<Rightarrow>
                 (case zk_set tmppath d (-1) z1 of
                    (Inl err, z2) \<Rightarrow> (Some err, z2)
                  | (Inr _, z2) \<Rightarrow> (None, z2)))
      | Inl err \<Rightarrow> (Some err, z1))"

text \<open>The loop of lines 172-185 over \<open>strings.Split(path, "/")[1:]\<close>: append the segment;
  stop at the last one; otherwise create the prefix persistently and append \<open>"/"\<close>.\<close>

fun traverse_loop :: "path \<Rightarrow> string list \<Rightarrow> zk \<Rightarrow> (zk_error + path) \<times> zk" where
  "traverse_loop tmppath [] z = (Inr tmppath, z)"
| "traverse_loop tmppath [v] z = (Inr (tmppath @ v), z)"
| "traverse_loop tmppath (v # w # vs) z =
     (case innerCreatePath (tmppath @ v) None CreatePersistent z of
        (Some err, z') \<Rightarrow> (Inl err, z')
      | (None, z') \<Rightarrow> traverse_loop (tmppath @ v @ ''/'') (w # vs) z')"

definition traverseCreatePath :: "path \<Rightarrow> bytes option \<Rightarrow> create_type \<Rightarrow> zk \<Rightarrow> zk_error option \<times> zk" where
  "traverseCreatePath path data createType z =
     (case traverse_loop ''/'' (tl (split_on slash path)) z of
        (Inl err, z') \<Rightarrow> (Some err, z')
      | (Inr tmppath, z') \<Rightarrow> innerCreatePath tmppath data createType z')"

definition registePath :: "path \<Rightarrow> string \<Rightarrow> create_type \<Rightarrow> bytes option \<Rightarrow> zk \<Rightarrow> (zk_error + path) \<times> zk" where
  "registePath path childpath createType data z =
     (case traverseCreatePath path None CreatePersistent z of
        (None, z1) \<Rightarrow>
          (case innerCreatePath (path @ ''/'' @ childpath) data createType z1 of
             (Some err, z2) \<Rightarrow> (Inl err, z2)
           | (None, z2) \<Rightarrow> (Inr (path @ ''/'' @ childpath), z2))
      | (Some err, z1) \<Rightarrow> (Inl err, z1))"

text \<open>\<open>NewZKManager\<close>: a panic is an \<open>Inl\<close>. Dialling consults the fault oracle once.\<close>

datatype startup_error = DialFailed | RootExistsFailed zk_error | RootCreateFailed zk_error

record zk_config =
  Addrs :: "string list"
  Timeout_ms :: nat

text \<open>Lines 18-20: the manager holds the session handle. The model names the handle by
  the configuration it was dialled with; the session's state is the threaded \<^typ>\<open>zk\<close>.\<close>

record ZKManager =
  session :: zk_config

definition NewZKManager :: "string \<Rightarrow> zk \<Rightarrow> (startup_error + ZKManager) \<times> zk" where
  "NewZKManager zkhosts z =
     (let hosts = (if length zkhosts \<le> 0 then ''localhost:2181'' else zkhosts);
          conf = \<lparr>Addrs = split_on CHR '','' hosts, Timeout_ms = 5000\<rparr>;
          (dialfail, z1) = fault_step z in
      if dialfail then (Inl DialFailed, z1)
      else case zk_exists KITEQ None z1 of
        (Inl err, z2) \<Rightarrow> (Inl (RootExistsFailed err), z2)
      | (Inr exist, z2) \<Rightarrow>
          if \<not> exist then
            (case zk_create KITEQ [] CreatePersistent z2 of
               (Inl err, z3) \<Rightarrow> (Inl (RootCreateFailed err), z3)
             | (Inr _, z3) \<Rightarrow> (Inr \<lparr>session = conf\<rparr>, z3))
          else (Inr \<lparr>session = conf\<rparr>, z2))"

section \<open>Abstract specification of registration\<close>

text \<open>What \<open>registePath\<close> promises, on the store seen as a map from paths to nodes
  (spec \<section>4.2): \<open>put_node\<close> is create-if-absent, overwrite-if-data;
  \<open>ensure_dirs\<close> makes every listed path an existing node without touching
  existing ones; \<open>prefix_paths\<close> lists the proper prefixes
  \<open>/a\<close>, \<open>/a/b\<close>, ... of a path given by its segments.\<close>

definition put_node :: "(path \<rightharpoonup> znode) \<Rightarrow> path \<Rightarrow> bytes option \<Rightarrow> create_type \<Rightarrow> (path \<rightharpoonup> znode)" where
  "put_node m q d ct =
     (case m q of
        None \<Rightarrow> m(q \<mapsto> \<lparr>zdata = (case d of None \<Rightarrow> [] | Some x \<Rightarrow> x), zmode = ct, zversion = 0\<rparr>)
      | Some n \<Rightarrow> (case d of None \<Rightarrow> m | Some x \<Rightarrow> m(q \<mapsto> n\<lparr>zdata := x, zversion := Suc (zversion n)\<rparr>)))"

definition create_ok :: "zk \<Rightarrow> path \<Rightarrow> bool" where
  "create_ok z q \<longleftrightarrow> valid_path q \<and> q \<noteq> ''/'' \<and>
     (case lookup z (parent_path q) of None \<Rightarrow> False | Some pn \<Rightarrow> zmode pn = CreatePersistent)"

definition dir_ok :: "(path \<rightharpoonup> znode) \<Rightarrow> path \<Rightarrow> bool" where
  "dir_ok m q \<longleftrightarrow> (case m q of None \<Rightarrow> False | Some n \<Rightarrow> zmode n = CreatePersistent)"

definition persistent_or_absent :: "(path \<rightharpoonup> znode) \<Rightarrow> path \<Rightarrow> bool" where
  "persistent_or_absent m q \<longleftrightarrow> (case m q of None \<Rightarrow> True | Some n \<Rightarrow> zmode n = CreatePersistent)"

definition ensure_dirs :: "path list \<Rightarrow> (path \<rightharpoonup> znode) \<Rightarrow> (path \<rightharpoonup> znode)" where
  "ensure_dirs qs m = fold (\<lambda>q m. put_node m q None CreatePersistent) qs m"

fun prefix_paths :: "string list \<Rightarrow> string list \<Rightarrow> path list" where
  "prefix_paths pre [] = []"
| "prefix_paths pre (v # vs) = abs_path (pre @ [v]) # prefix_paths (pre @ [v]) vs"

definition pref :: "string list \<Rightarrow> path" where
  "pref pre = slash # concat (map (\<lambda>u. u @ [slash]) pre)"

definition register_spec ::
  "string list \<Rightarrow> string \<Rightarrow> create_type \<Rightarrow> bytes option \<Rightarrow> (path \<rightharpoonup> znode) \<Rightarrow> (path \<rightharpoonup> znode)" where
  "register_spec segs c ct d m = put_node (ensure_dirs (prefix_paths [] segs) m) (abs_path (segs @ [c])) d ct"

text \<open>The paths the loop of \<open>traverseCreatePath\<close> visits, as the code builds them.\<close>

fun loop_paths :: "path \<Rightarrow> string list \<Rightarrow> path list" where
  "loop_paths tmppath [] = [tmppath]"
| "loop_paths tmppath [v] = [tmppath @ v]"
| "loop_paths tmppath (v # w # vs) = (tmppath @ v) # loop_paths (tmppath @ v @ ''/'') (w # vs)"

section \<open>Lemmas: the confirmation poll\<close>

declare confirm_poll.simps [simp del]

lemma zk_exists_frame:
  assumes "zk_exists p w z = (r, z1)"
  shows "lookup z1 = lookup z" "clock z1 = clock z" "faults z1 = drop 1 (faults z)"
  using assms fault_step_lookup fault_step_clock fault_step_faults
  by (auto simp: zk_exists_def split: prod.splits if_splits)

lemma confirm_poll_lookup: "lookup (confirm_poll p i z) = lookup z"
proof (induction p i z rule: confirm_poll.induct)
  case (1 p i z)
  then show ?case
    by (auto simp: confirm_poll.simps [of p i z] split: prod.splits dest: zk_exists_frame)
qed

lemma confirm_poll_faults: "\<exists>k \<le> 5 - i. faults (confirm_poll p i z) = drop k (faults z)"
proof (induction p i z rule: confirm_poll.induct)
  case (1 p i z)
  show ?case
  proof (cases "i < 5")
    case True
    obtain r z1 where ex: "zk_exists p None z = (r, z1)" by fastforce
    show ?thesis
    proof (cases "result_or False r")
      case True
      with \<open>i < 5\<close> ex zk_exists_frame(3) [OF ex] show ?thesis
        by (auto simp: confirm_poll.simps [of p i z] intro: exI [of _ 1])
    next
      case False
      from "1" [OF \<open>i < 5\<close> ex [symmetric] refl] False obtain k where
        k: "k \<le> 5 - Suc i" "faults (confirm_poll p (Suc i) (sleep (i * 100) z1)) = drop k (faults z1)"
        by auto
      with \<open>i < 5\<close> ex False zk_exists_frame(3) [OF ex] show ?thesis
        by (auto simp: confirm_poll.simps [of p i z] intro!: exI [of _ "Suc k"])
    qed
  next
    case False
    then show ?thesis by (simp add: confirm_poll.simps [of p i z])
  qed
qed

lemma confirm_poll_clock:
  "clock z \<le> clock (confirm_poll p i z) \<and>
   clock (confirm_poll p i z) \<le> clock z + (\<Sum>j \<leftarrow> [i..<5]. j * 100)"
proof (induction p i z rule: confirm_poll.induct)
  case (1 p i z)
  show ?case
  proof (cases "i < 5")
    case True
    obtain r z1 where ex: "zk_exists p None z = (r, z1)" by fastforce
    have sum: "(\<Sum>j \<leftarrow> [i..<5]. j * 100) = i * 100 + (\<Sum>j \<leftarrow> [Suc i..<5]. j * 100)"
      using True by (simp add: upt_conv_Cons)
    show ?thesis
    proof (cases "result_or False r")
      case True
      with \<open>i < 5\<close> ex zk_exists_frame(2) [OF ex] show ?thesis
        by (simp add: confirm_poll.simps [of p i z])
    next
      case False
      from "1" [OF \<open>i < 5\<close> ex [symmetric] refl] False
      have "clock (sleep (i * 100) z1) \<le> clock (confirm_poll p (Suc i) (sleep (i * 100) z1)) \<and>
            clock (confirm_poll p (Suc i) (sleep (i * 100) z1))
              \<le> clock (sleep (i * 100) z1) + (\<Sum>j \<leftarrow> [Suc i..<5]. j * 100)"
        by auto
      with \<open>i < 5\<close> ex False zk_exists_frame(2) [OF ex] sum show ?thesis
        by (auto simp: confirm_poll.simps [of p i z] sleep_def)
    qed
  next
    case False
    then show ?thesis by (simp add: confirm_poll.simps [of p i z])
  qed
qed

lemma poll_sleep_total: "(\<Sum>j \<leftarrow> [0..<5]. j * 100) = (1000::nat)"
  by (simp add: upt_rec)

lemma confirm_poll_present:
  "faults z = [] \<Longrightarrow> lookup z p \<noteq> None \<Longrightarrow> confirm_poll p i z = z"
  by (simp add: confirm_poll.simps [of p i z] zk_simps result_or_def add_watch_def)

section \<open>Lemmas: innerCreatePath under any faults\<close>

lemma zk_create_frame:
  assumes "zk_create p d m z = (r, z1)"
  shows "faults z1 = drop 1 (faults z)" "clock z1 = clock z"
    "lookup z1 = (case r of Inl _ \<Rightarrow> lookup z
                  | Inr _ \<Rightarrow> (lookup z)(p \<mapsto> \<lparr>zdata = d, zmode = m, zversion = 0\<rparr>))"
  using assms fault_step_lookup fault_step_clock fault_step_faults
    srv_create_Inr [of p d m _]
  by (auto simp: zk_create_def split: prod.splits if_splits sum.splits)

lemma zk_set_frame:
  assumes "zk_set p d v z = (r, z1)"
  shows "faults z1 = drop 1 (faults z)" "clock z1 = clock z"
    "r = Inl e \<Longrightarrow> lookup z1 = lookup z"
    "r = Inr u \<Longrightarrow> \<exists>n. lookup z p = Some n \<and>
       lookup z1 = (lookup z)(p \<mapsto> n\<lparr>zdata := d, zversion := Suc (zversion n)\<rparr>)"
proof -
  obtain f z0 where fs: "fault_step z = (f, z0)" by fastforce
  note fr = fault_step_lookup [OF fs] fault_step_clock [OF fs] fault_step_faults [OF fs]
  show "faults z1 = drop 1 (faults z)" "clock z1 = clock z"
    using assms fs fr srv_set_Inr(2,3) [of p d v z0]
    by (auto simp: zk_set_def split: if_splits sum.splits)
  show "r = Inl e \<Longrightarrow> lookup z1 = lookup z"
    using assms fs fr by (auto simp: zk_set_def split: if_splits sum.splits)
  show "r = Inr u \<Longrightarrow> \<exists>n. lookup z p = Some n \<and>
       lookup z1 = (lookup z)(p \<mapsto> n\<lparr>zdata := d, zversion := Suc (zversion n)\<rparr>)"
    using assms fs fr srv_set_Inr(1) [of p d v z0]
    by (auto simp: zk_set_def split: if_splits sum.splits)
qed

lemma innerCreatePath_cases:
  assumes "innerCreatePath q d ct z = (r, z')"
  shows "lookup z' = lookup z \<or> (\<exists>n. lookup z' = (lookup z)(q \<mapsto> n))"
    and "r = None \<Longrightarrow> lookup z' q \<noteq> None"
    and "\<exists>k. faults z' = drop k (faults z)"
    and "clock z \<le> clock z' \<and> clock z' \<le> clock z + 1000"
proof -
  obtain r1 z1 where ex: "zk_exists q None z = (r1, z1)" by fastforce
  note exf = zk_exists_frame [OF ex]
  have "(lookup z' = lookup z \<or> (\<exists>n. lookup z' = (lookup z)(q \<mapsto> n)))
        \<and> (r = None \<longrightarrow> lookup z' q \<noteq> None) \<and> (\<exists>k. faults z' = drop k (faults z))
        \<and> clock z \<le> clock z' \<and> clock z' \<le> clock z + 1000"
  proof (cases r1)
    case (Inl e)
    with assms ex exf show ?thesis
      by (auto simp: innerCreatePath_def intro: exI [of _ 1])
  next
    case (Inr exist)
    show ?thesis
    proof (cases exist)
      case False
      obtain rc z2 where cr: "zk_create q (case d of None \<Rightarrow> [] | Some x \<Rightarrow> x) ct z1 = (rc, z2)"
        by fastforce
      note crf = zk_create_frame [OF cr]
      show ?thesis
      proof (cases rc)
        case (Inl e)
        with assms ex exf Inr False cr crf show ?thesis
          by (auto simp: innerCreatePath_def intro: exI [of _ 2])
      next
        case (Inr p')
        obtain k where "k \<le> 5" "faults (confirm_poll q 0 z2) = drop k (faults z2)"
          using confirm_poll_faults [of 0 q z2] by auto
        moreover have "clock z2 \<le> clock (confirm_poll q 0 z2) \<and> clock (confirm_poll q 0 z2) \<le> clock z2 + 1000"
          using confirm_poll_clock [of z2 q 0] by (simp add: poll_sleep_total)
        ultimately show ?thesis using assms ex exf \<open>r1 = Inr exist\<close> False cr crf Inr
          by (auto simp: innerCreatePath_def confirm_poll_lookup intro!: exI [of _ "k + 2"])
      qed
    next
      case True
      with Inr ex exf have present: "lookup z q \<noteq> None"
        by (auto simp: zk_exists_def split: prod.splits if_splits dest: fault_step_lookup)
      show ?thesis
      proof (cases d)
        case None
        with assms ex exf Inr True present show ?thesis
          by (auto simp: innerCreatePath_def intro: exI [of _ 1])
      next
        case (Some x)
        obtain rs z2 where st: "zk_set q x (-1) z1 = (rs, z2)" by fastforce
        note stf = zk_set_frame [OF st]
        show ?thesis
        proof (cases rs)
          case (Inl e)
          with assms ex exf Inr True Some st stf present show ?thesis
            by (auto simp: innerCreatePath_def intro: exI [of _ 2])
        next
          case (Inr u)
          with assms ex exf \<open>r1 = Inr exist\<close> True Some st stf(1,2) stf(4) [of u] show ?thesis
            by (auto simp: innerCreatePath_def intro: exI [of _ 2])
        qed
      qed
    qed
  qed
  then show "lookup z' = lookup z \<or> (\<exists>n. lookup z' = (lookup z)(q \<mapsto> n))"
    and "r = None \<Longrightarrow> lookup z' q \<noteq> None" and "\<exists>k. faults z' = drop k (faults z)"
    and "clock z \<le> clock z' \<and> clock z' \<le> clock z + 1000"
    by blast+
qed


section \<open>Lemmas: the abstract specification\<close>

lemma pref_append: "pref pre @ v = abs_path (pre @ [v])"
proof (induction pre)
  case Nil
  then show ?case by (simp add: pref_def abs_path_def)
next
  case (Cons u us)
  then show ?case by (simp add: pref_def abs_path_def join_on_Cons)
qed

lemma pref_snoc: "pref pre @ v @ ''/'' = pref (pre @ [v])"
  by (simp add: pref_def slash_def)

lemma abs_path_child: "segs \<noteq> [] \<Longrightarrow> abs_path segs @ ''/'' @ c = abs_path (segs @ [c])"
  by (simp add: abs_path_def join_on_snoc slash_def)

lemma put_node_keeps: "m q' = Some n \<Longrightarrow> put_node m q None ct q' = Some n"
  by (auto simp: put_node_def split: option.split)

lemma put_node_dir: "persistent_or_absent m q \<Longrightarrow> dir_ok (put_node m q None CreatePersistent) q"
  by (auto simp: put_node_def persistent_or_absent_def dir_ok_def split: option.split)

lemma put_node_persistent_or_absent:
  "persistent_or_absent m q' \<Longrightarrow> persistent_or_absent (put_node m q None CreatePersistent) q'"
  by (auto simp: put_node_def persistent_or_absent_def split: option.splits)

lemma put_node_dir_ok: "dir_ok m q' \<Longrightarrow> dir_ok (put_node m q None ct) q'"
  by (auto simp: dir_ok_def put_node_keeps split: option.splits)

lemma prefix_paths_snoc:
  "prefix_paths pre (xs @ [x]) = prefix_paths pre xs @ [abs_path (pre @ xs @ [x])]"
  by (induction xs arbitrary: pre) auto

lemma ensure_dirs_Cons: "ensure_dirs (q # qs) m = ensure_dirs qs (put_node m q None CreatePersistent)"
  by (simp add: ensure_dirs_def)

lemma ensure_dirs_snoc: "ensure_dirs (qs @ [q]) m = put_node (ensure_dirs qs m) q None CreatePersistent"
  by (simp add: ensure_dirs_def)

lemma ensure_dirs_keeps: "dir_ok m q \<Longrightarrow> dir_ok (ensure_dirs qs m) q"
  by (induction qs arbitrary: m) (auto simp: ensure_dirs_def ensure_dirs_Cons put_node_dir_ok)

lemma ensure_dirs_dir:
  "list_all (persistent_or_absent m) qs \<Longrightarrow> q \<in> set qs \<Longrightarrow> dir_ok (ensure_dirs qs m) q"
proof (induction qs arbitrary: m)
  case Nil
  then show ?case by simp
next
  case (Cons q' qs)
  show ?case
  proof (cases "q = q'")
    case True
    with Cons.prems show ?thesis
      by (simp add: ensure_dirs_Cons put_node_dir ensure_dirs_keeps)
  next
    case False
    with Cons show ?thesis
      by (auto simp: ensure_dirs_Cons list.pred_set intro: put_node_persistent_or_absent)
  qed
qed

section \<open>Refinement: registration without faults\<close>

lemma innerCreatePath_no_fault:
  assumes "faults z = []" "lookup z q = None \<Longrightarrow> create_ok z q"
  shows "\<exists>z'. innerCreatePath q d ct z = (None, z') \<and> lookup z' = put_node (lookup z) q d ct
              \<and> faults z' = [] \<and> clock z' = clock z"
proof (cases "lookup z q")
  case None
  with assms obtain pn where ok: "valid_path q" "q \<noteq> ''/''" "lookup z (parent_path q) = Some pn"
    "zmode pn = CreatePersistent"
    by (auto simp: create_ok_def split: option.splits)
  let ?d = "case d of None \<Rightarrow> [] | Some x \<Rightarrow> x"
  from srv_create_ok [OF ok None] obtain z2 where cr: "srv_create q ?d ct z = Inr z2" by blast
  note z2 = srv_create_Inr [OF cr]
  have "confirm_poll q 0 (own_create ct q z2) = own_create ct q z2"
    using z2 assms(1) by (intro confirm_poll_present) simp_all
  with cr z2 None assms(1) show ?thesis
    by (simp add: innerCreatePath_def zk_simps add_watch_def put_node_def)
next
  case (Some n)
  show ?thesis
  proof (cases d)
    case None
    with Some assms(1) show ?thesis
      by (simp add: innerCreatePath_def zk_simps add_watch_def put_node_def)
  next
    case (Some x)
    from srv_set_any_version [OF \<open>lookup z q = Some n\<close>] obtain z2 where
      st: "srv_set q x (-1) z = Inr z2" by blast
    from srv_set_Inr [OF st] \<open>lookup z q = Some n\<close> Some st assms(1) show ?thesis
      by (auto simp: innerCreatePath_def zk_simps add_watch_def put_node_def)
  qed
qed

lemma create_ok_abs_path:
  assumes "\<forall>u \<in> set (pre @ [v]). good_seg u" "dir_ok (lookup z) ''/''"
    "pre \<noteq> [] \<Longrightarrow> dir_ok (lookup z) (abs_path pre)"
  shows "create_ok z (abs_path (pre @ [v]))"
proof -
  have "\<forall>u \<in> set (pre @ [v]). slash \<notin> set u" using assms(1) by (auto simp: good_seg_def)
  then have "parent_path (abs_path (pre @ [v])) = (if pre = [] then ''/'' else abs_path pre)"
    by (rule parent_abs_path_snoc)
  with assms show ?thesis
    by (auto simp: create_ok_def dir_ok_def valid_abs_path abs_path_not_root split: option.splits)
qed

lemma innerCreatePath_dir:
  "faults z = [] \<Longrightarrow> lookup z q \<noteq> None \<Longrightarrow> innerCreatePath q None ct z = (None, z)"
  by (simp add: innerCreatePath_def zk_exists_no_fault add_watch_def)

lemma innerCreatePath_bad:
  "faults z = [] \<Longrightarrow> lookup z q = None \<Longrightarrow> \<not> valid_path q \<Longrightarrow> innerCreatePath q d ct z = (Some ErrBadArguments, z)"
  by (simp add: innerCreatePath_def zk_exists_no_fault zk_create_no_fault add_watch_def srv_create_def)

lemma traverse_loop_no_fault:
  assumes "faults z = []" "\<forall>u \<in> set (pre @ v # vs). good_seg u" "dir_ok (lookup z) ''/''"
    "pre \<noteq> [] \<Longrightarrow> dir_ok (lookup z) (abs_path pre)"
    "list_all (persistent_or_absent (lookup z)) (prefix_paths pre (v # vs))"
  shows "\<exists>z'. traverse_loop (pref pre) (v # vs) z = (Inr (abs_path (pre @ v # vs)), z')
           \<and> lookup z' = ensure_dirs (butlast (prefix_paths pre (v # vs))) (lookup z)
           \<and> faults z' = [] \<and> clock z' = clock z"
  using assms
proof (induction vs arbitrary: pre v z)
  case Nil
  then show ?case by (simp add: pref_append ensure_dirs_def)
next
  case (Cons w ws)
  let ?q = "abs_path (pre @ [v])"
  have ok: "create_ok z ?q"
    using Cons.prems(2-4) by (intro create_ok_abs_path) auto
  from innerCreatePath_no_fault [OF Cons.prems(1), of ?q, OF ok] obtain z1 where
    z1: "innerCreatePath ?q None CreatePersistent z = (None, z1)"
      "lookup z1 = put_node (lookup z) ?q None CreatePersistent" "faults z1 = []" "clock z1 = clock z"
    by blast
  have pa: "persistent_or_absent (lookup z) ?q" using Cons.prems(5) by simp
  have "\<exists>z'. traverse_loop (pref (pre @ [v])) (w # ws) z1 = (Inr (abs_path ((pre @ [v]) @ w # ws)), z')
          \<and> lookup z' = ensure_dirs (butlast (prefix_paths (pre @ [v]) (w # ws))) (lookup z1)
          \<and> faults z' = [] \<and> clock z' = clock z1"
  proof (rule Cons.IH)
    show "faults z1 = []" by (fact z1(3))
    show "\<forall>u \<in> set ((pre @ [v]) @ w # ws). good_seg u" using Cons.prems(2) by simp
    show "dir_ok (lookup z1) ''/''" using Cons.prems(3) z1(2) by (simp add: put_node_dir_ok)
    show "dir_ok (lookup z1) (abs_path (pre @ [v]))" using pa z1(2) by (simp add: put_node_dir)
    show "list_all (persistent_or_absent (lookup z1)) (prefix_paths (pre @ [v]) (w # ws))"
      using Cons.prems(5) z1(2)
      by (simp add: list.pred_set put_node_persistent_or_absent)
  qed
  then obtain z' where z': "traverse_loop (pref (pre @ [v])) (w # ws) z1 = (Inr (abs_path (pre @ v # w # ws)), z')"
    "lookup z' = ensure_dirs (butlast (prefix_paths (pre @ [v]) (w # ws))) (lookup z1)"
    "faults z' = []" "clock z' = clock z1"
    by auto
  have tl: "traverse_loop (pref pre) (v # w # ws) z = traverse_loop (pref (pre @ [v])) (w # ws) z1"
    using z1(1) by (simp add: pref_append pref_snoc [symmetric])
  show ?case
    using tl z' z1 by (simp add: ensure_dirs_Cons)
qed

lemma abs_path_in_prefix_paths: "xs \<noteq> [] \<Longrightarrow> abs_path (pre @ xs) \<in> set (prefix_paths pre xs)"
  by (induction xs rule: rev_induct) (auto simp: prefix_paths_snoc)

lemma traverseCreatePath_no_fault:
  assumes "faults z = []" "segs \<noteq> []" "\<forall>u \<in> set segs. good_seg u" "dir_ok (lookup z) ''/''"
    "list_all (persistent_or_absent (lookup z)) (prefix_paths [] segs)"
  shows "\<exists>z'. traverseCreatePath (abs_path segs) None CreatePersistent z = (None, z')
           \<and> lookup z' = ensure_dirs (prefix_paths [] segs) (lookup z) \<and> faults z' = [] \<and> clock z' = clock z"
proof -
  obtain v vs where vs: "segs = v # vs" using assms(2) by (cases segs) auto
  obtain xs x where xs: "segs = xs @ [x]" using assms(2) by (cases segs rule: rev_cases) auto
  have split: "tl (split_on slash (abs_path segs)) = segs"
    using assms(2,3) by (simp add: split_abs_path good_seg_def)
  have root: "''/'' = pref []" by (simp add: pref_def slash_def)
  from traverse_loop_no_fault [of z "[]" v vs] assms vs obtain z1 where
    z1: "traverse_loop (pref []) segs z = (Inr (abs_path segs), z1)"
      "lookup z1 = ensure_dirs (butlast (prefix_paths [] segs)) (lookup z)" "faults z1 = []" "clock z1 = clock z"
    by auto
  have P: "prefix_paths [] segs = prefix_paths [] xs @ [abs_path segs]"
    using xs by (simp add: prefix_paths_snoc)
  have all_xs: "list_all (persistent_or_absent (lookup z)) (prefix_paths [] xs)"
    using assms(5) P by simp
  have ok: "create_ok z1 (abs_path (xs @ [x]))"
  proof (rule create_ok_abs_path)
    show "\<forall>u \<in> set (xs @ [x]). good_seg u" using assms(3) xs by simp
    show "dir_ok (lookup z1) ''/''" using assms(4) z1(2) by (simp add: ensure_dirs_keeps)
    show "dir_ok (lookup z1) (abs_path xs)" if "xs \<noteq> []"
      using z1(2) P all_xs ensure_dirs_dir abs_path_in_prefix_paths [OF that, of "[]"] by simp
  qed
  from innerCreatePath_no_fault [OF z1(3), of "abs_path segs"] ok xs obtain z2 where
    z2: "innerCreatePath (abs_path segs) None CreatePersistent z1 = (None, z2)"
      "lookup z2 = put_node (lookup z1) (abs_path segs) None CreatePersistent" "faults z2 = []" "clock z2 = clock z1"
    by blast
  show ?thesis
    using z1 z2 split root P by (simp add: traverseCreatePath_def ensure_dirs_snoc)
qed

theorem registePath_refines:
  assumes "faults z = []" "segs \<noteq> []" "\<forall>u \<in> set (segs @ [c]). good_seg u" "dir_ok (lookup z) ''/''"
    "list_all (persistent_or_absent (lookup z)) (prefix_paths [] segs)"
  shows "\<exists>z'. registePath (abs_path segs) c ct d z = (Inr (abs_path (segs @ [c])), z')
           \<and> lookup z' = register_spec segs c ct d (lookup z) \<and> faults z' = [] \<and> clock z' = clock z"
proof -
  from traverseCreatePath_no_fault [OF assms(1,2) _ assms(4,5)] assms(3) obtain z1 where
    z1: "traverseCreatePath (abs_path segs) None CreatePersistent z = (None, z1)"
      "lookup z1 = ensure_dirs (prefix_paths [] segs) (lookup z)" "faults z1 = []" "clock z1 = clock z"
    by auto
  have ok: "create_ok z1 (abs_path (segs @ [c]))"
  proof (rule create_ok_abs_path)
    show "\<forall>u \<in> set (segs @ [c]). good_seg u" by (fact assms(3))
    show "dir_ok (lookup z1) ''/''" using assms(4) z1(2) by (simp add: ensure_dirs_keeps)
    show "dir_ok (lookup z1) (abs_path segs)"
      using z1(2) assms(5) ensure_dirs_dir abs_path_in_prefix_paths [OF assms(2), of "[]"] by simp
  qed
  from innerCreatePath_no_fault [OF z1(3), of "abs_path (segs @ [c])"] ok obtain z2 where
    z2: "innerCreatePath (abs_path (segs @ [c])) d ct z1 = (None, z2)"
      "lookup z2 = put_node (lookup z1) (abs_path (segs @ [c])) d ct" "faults z2 = []" "clock z2 = clock z1"
    by blast
  show ?thesis
    using z1 z2 abs_path_child [OF assms(2), of c]
    by (simp add: registePath_def register_spec_def)
qed

section \<open>Lemmas: registration under any faults, repeated registration\<close>

lemma loop_paths_not_Nil [simp]: "loop_paths t vs \<noteq> []"
  by (induction t vs rule: loop_paths.induct) auto

lemma loop_paths_length_pos: "Suc 0 \<le> length (loop_paths t vs)"
  using loop_paths_not_Nil [of t vs] by (cases "loop_paths t vs") auto

lemma traverse_loop_frame:
  assumes "traverse_loop t vs z = (r, z')"
  shows "dom (lookup z) \<subseteq> dom (lookup z')
     \<and> clock z \<le> clock z' \<and> clock z' \<le> clock z + 1000 * (length (loop_paths t vs) - 1)
     \<and> (\<forall>t'. r = Inr t' \<longrightarrow> t' = last (loop_paths t vs)
            \<and> (\<forall>q \<in> set (butlast (loop_paths t vs)). lookup z' q \<noteq> None))"
  using assms
proof (induction t vs z arbitrary: r z' rule: traverse_loop.induct)
  case (1 t z)
  then show ?case by auto
next
  case (2 t v z)
  then show ?case by auto
next
  case (3 t v w vs z)
  obtain ri z1 where inner: "innerCreatePath (t @ v) None CreatePersistent z = (ri, z1)"
    by fastforce
  note ic = innerCreatePath_cases [OF inner]
  have dom1: "dom (lookup z) \<subseteq> dom (lookup z1)"
    using ic(1) by (auto simp: dom_def)
  have len: "length (loop_paths t (v # w # vs)) = Suc (length (loop_paths (t @ v @ ''/'') (w # vs)))"
    by simp
  have pos: "1000 \<le> 1000 * length (loop_paths (t @ v @ ''/'') (w # vs))"
    using loop_paths_length_pos [of "t @ v @ ''/''" "w # vs"] by (simp del: loop_paths.simps)
  show ?case
  proof (cases ri)
    case (Some err)
    with "3.prems" inner have "r = Inl err" "z' = z1" by auto
    with dom1 ic(4) len pos show ?thesis
      by (simp del: loop_paths.simps)
  next
    case None
    with "3.prems" inner have rest: "traverse_loop (t @ v @ ''/'') (w # vs) z1 = (r, z')" by simp
    from "3.IH" [OF inner [symmetric] None rest] have IH:
      "dom (lookup z1) \<subseteq> dom (lookup z') \<and> clock z1 \<le> clock z' \<and>
       clock z' \<le> clock z1 + 1000 * (length (loop_paths (t @ v @ ''/'') (w # vs)) - 1) \<and>
       (\<forall>t'. r = Inr t' \<longrightarrow> t' = last (loop_paths (t @ v @ ''/'') (w # vs)) \<and>
          (\<forall>q\<in>set (butlast (loop_paths (t @ v @ ''/'') (w # vs))). lookup z' q \<noteq> None))"
      by blast
    have here: "lookup z' (t @ v) \<noteq> None"
      using ic(2) None IH by auto
    show ?thesis
    proof (intro conjI allI impI)
      show "dom (lookup z) \<subseteq> dom (lookup z')" using dom1 IH by blast
      show "clock z \<le> clock z'" using ic(4) IH by linarith
      obtain L where L: "length (loop_paths (t @ v @ ''/'') (w # vs)) = L" by blast
      have L1: "1000 * (L - 1) + 1000 = 1000 * L"
        using loop_paths_length_pos [of "t @ v @ ''/''" "w # vs"] L by (cases L) auto
      show "clock z' \<le> clock z + 1000 * (length (loop_paths t (v # w # vs)) - 1)"
        using ic(4) IH len L L1 by (simp del: loop_paths.simps)
    next
      fix t' assume "r = Inr t'"
      with IH here show "t' = last (loop_paths t (v # w # vs))"
        and "\<forall>q \<in> set (butlast (loop_paths t (v # w # vs))). lookup z' q \<noteq> None"
        by auto
    qed
  qed
qed

lemma prefix_paths_short:
  "q \<in> set (prefix_paths pre xs) \<Longrightarrow> length q \<le> length (abs_path (pre @ xs))"
proof (induction xs arbitrary: pre)
  case Nil
  then show ?case by simp
next
  case (Cons v vs)
  show ?case
  proof (cases "q = abs_path (pre @ [v])")
    case True
    then show ?thesis
      using join_on_append [of "pre @ [v]" vs slash] by (cases "vs = []") (auto simp: abs_path_def)
  next
    case False
    with Cons.prems have "q \<in> set (prefix_paths (pre @ [v]) vs)" by simp
    with Cons.IH show ?thesis by fastforce
  qed
qed

lemma leaf_not_prefix:
  "segs \<noteq> [] \<Longrightarrow> abs_path (segs @ [c]) \<notin> set (prefix_paths [] segs)"
  using prefix_paths_short [of "abs_path (segs @ [c])" "[]" segs]
  by (auto simp: abs_path_def join_on_snoc)

lemma put_node_other: "q' \<noteq> q \<Longrightarrow> put_node m q d ct q' = m q'"
  by (simp add: put_node_def split: option.split)

lemma put_node_present: "put_node m q d ct q \<noteq> None"
  by (simp add: put_node_def split: option.split)

lemma dom_put_node: "dom (put_node m q d ct) = insert q (dom m)"
  by (auto simp: put_node_def split: option.splits if_splits)

lemma ensure_dirs_present: "\<forall>q \<in> set qs. m q \<noteq> None \<Longrightarrow> ensure_dirs qs m = m"
  by (induction qs) (auto simp: ensure_dirs_def put_node_def)

lemma dir_ok_present: "dir_ok m q \<Longrightarrow> m q \<noteq> None"
  by (auto simp: dir_ok_def split: option.splits)

lemma dir_ok_persistent_or_absent: "dir_ok m q \<Longrightarrow> persistent_or_absent m q"
  by (auto simp: dir_ok_def persistent_or_absent_def split: option.splits)

text \<open>After one registration every prefix is a directory and the leaf exists: the
  preconditions of registration hold again, and repeating it only rewrites the leaf.\<close>

lemma register_spec_again:
  assumes "segs \<noteq> []" "\<forall>u \<in> set (segs @ [c]). good_seg u" "dir_ok m ''/''"
    "list_all (persistent_or_absent m) (prefix_paths [] segs)"
  shows "dir_ok (register_spec segs c ct d m) ''/''"
    and "list_all (persistent_or_absent (register_spec segs c ct d m)) (prefix_paths [] segs)"
    and "register_spec segs c ct d' (register_spec segs c ct d m)
           = put_node (register_spec segs c ct d m) (abs_path (segs @ [c])) d' ct"
proof -
  let ?leaf = "abs_path (segs @ [c])"
  have nroot: "''/'' \<noteq> ?leaf"
    using abs_path_not_root [of "segs @ [c]"] assms(2) by auto
  have dirs: "\<forall>q \<in> set (prefix_paths [] segs). dir_ok (register_spec segs c ct d m) q"
  proof
    fix q assume q: "q \<in> set (prefix_paths [] segs)"
    with leaf_not_prefix [OF assms(1), of c] have "q \<noteq> ?leaf" by auto
    then have "register_spec segs c ct d m q = ensure_dirs (prefix_paths [] segs) m q"
      by (simp add: register_spec_def put_node_other)
    with ensure_dirs_dir [OF assms(4) q] show "dir_ok (register_spec segs c ct d m) q"
      by (simp add: dir_ok_def)
  qed
  show "dir_ok (register_spec segs c ct d m) ''/''"
    using assms(3) nroot by (simp add: register_spec_def dir_ok_def put_node_other ensure_dirs_keeps [simplified dir_ok_def])
  show "list_all (persistent_or_absent (register_spec segs c ct d m)) (prefix_paths [] segs)"
    using dirs by (simp add: list.pred_set dir_ok_persistent_or_absent)
  show "register_spec segs c ct d' (register_spec segs c ct d m)
           = put_node (register_spec segs c ct d m) ?leaf d' ct"
    using dirs by (simp add: register_spec_def [of segs c ct d'] ensure_dirs_present dir_ok_present)
qed

lemma loop_paths_last: "vs \<noteq> [] \<Longrightarrow> last (loop_paths t vs) = t @ join_on slash vs"
  by (induction t vs rule: loop_paths.induct) (simp_all add: join_on_Cons slash_def)

lemma loop_paths_last_abs:
  assumes "hd path = slash" "path \<noteq> []"
  shows "last (loop_paths ''/'' (tl (split_on slash path))) = path"
proof -
  obtain rest where p: "path = slash # rest" using assms by (cases path) auto
  have "split_on slash path = [] # split_on slash rest" by (simp add: p)
  moreover have "join_on slash ([] # split_on slash rest) = path"
    using join_split_on [of slash path] calculation by simp
  ultimately show ?thesis
    using loop_paths_last [of "split_on slash rest" "''/''"] by (simp add: join_on_Cons slash_def)
qed

lemma registePath_frame:
  assumes "registePath path c ct d z = (r, z')"
  shows "dom (lookup z) \<subseteq> dom (lookup z') \<and> clock z \<le> clock z'
     \<and> clock z' \<le> clock z + 1000 * (length (loop_paths ''/'' (tl (split_on slash path))) + 1)
     \<and> (\<forall>fp. r = Inr fp \<longrightarrow> fp = path @ ''/'' @ c
            \<and> (\<forall>q \<in> set (loop_paths ''/'' (tl (split_on slash path)) @ [fp]). lookup z' q \<noteq> None))"
proof -
  let ?L = "loop_paths ''/'' (tl (split_on slash path))"
  obtain rl z1 where loop: "traverse_loop ''/'' (tl (split_on slash path)) z = (rl, z1)" by fastforce
  note lf = traverse_loop_frame [OF loop]
  show ?thesis
  proof (cases rl)
    case (Inl err)
    with assms loop lf show ?thesis
      by (auto simp: registePath_def traverseCreatePath_def)
  next
    case (Inr t')
    obtain ri z2 where i2: "innerCreatePath t' None CreatePersistent z1 = (ri, z2)" by fastforce
    note c2 = innerCreatePath_cases [OF i2]
    have d2: "dom (lookup z1) \<subseteq> dom (lookup z2)" using c2(1) by (auto simp: dom_def)
    have t': "t' = last ?L" "\<forall>q \<in> set (butlast ?L). lookup z1 q \<noteq> None" using lf Inr by auto
    show ?thesis
    proof (cases ri)
      case (Some err)
      with assms loop Inr i2 have "r = Inl err" "z' = z2"
        by (auto simp: registePath_def traverseCreatePath_def)
      moreover have "dom (lookup z) \<subseteq> dom (lookup z2)" using lf d2 by blast
      moreover have "clock z \<le> clock z2 \<and> clock z2 \<le> clock z + 1000 * (length ?L + 1)"
        using lf c2(4) by auto
      ultimately show ?thesis by simp
    next
      case None
      obtain rl2 z3 where i3: "innerCreatePath (path @ ''/'' @ c) d ct z2 = (rl2, z3)" by fastforce
      note c3 = innerCreatePath_cases [OF i3]
      have d3: "dom (lookup z2) \<subseteq> dom (lookup z3)" using c3(1) by (auto simp: dom_def)
      have steps: "r = (case rl2 of None \<Rightarrow> Inr (path @ ''/'' @ c) | Some e \<Rightarrow> Inl e)" "z' = z3"
        using assms loop Inr i2 None i3
        by (auto simp: registePath_def traverseCreatePath_def split: option.splits)
      have exist_all: "\<forall>q \<in> set ?L. lookup z3 q \<noteq> None"
      proof
        fix q assume q: "q \<in> set ?L"
        have "?L = butlast ?L @ [last ?L]" by simp
        with q have "q \<in> set (butlast ?L) \<or> q = t'" using t'(1)
          by (metis butlast_append in_set_butlastD last_snoc rotate1.simps(2) set_ConsD set_rotate1)
        then have "lookup z2 q \<noteq> None"
          using t'(2) d2 c2(2) None by blast
        with d3 show "lookup z3 q \<noteq> None" by blast
      qed
      have len: "1000 * length ?L + 1000 = 1000 * (length ?L + 1)" by simp
      have clk: "clock z1 \<le> clock z + 1000 * (length ?L - 1)" using lf by blast
      have L1: "1000 * (length ?L - 1) + 1000 = 1000 * length ?L"
        using loop_paths_length_pos [of "''/''" "tl (split_on slash path)"]
        by (cases "length ?L") auto
      show ?thesis
        using steps lf d2 d3 c2(4) c3(4) c3(2) exist_all clk L1
        by (auto split: option.splits)
    qed
  qed
qed

lemma KITEQ_abs_path: "KITEQ = abs_path [''kiteq'']"
  by (simp add: KITEQ_def abs_path_def slash_def)

section \<open>Lemmas: sequences of registrations\<close>

text \<open>The publishers register one leaf per topic. A leaf has one segment more than the
  paths it hangs under, so it is never a prefix of another registration of at most as
  many segments, and a registration keeps the preconditions of the next one.\<close>

lemma abs_path_inj:
  "\<forall>u \<in> set xs. good_seg u \<Longrightarrow> \<forall>u \<in> set ys. good_seg u \<Longrightarrow> xs \<noteq> [] \<Longrightarrow> ys \<noteq> []
   \<Longrightarrow> abs_path xs = abs_path ys \<Longrightarrow> xs = ys"
proof -
  assume g: "\<forall>u \<in> set xs. good_seg u" "\<forall>u \<in> set ys. good_seg u" "xs \<noteq> []" "ys \<noteq> []"
    and eq: "abs_path xs = abs_path ys"
  have "\<forall>v \<in> set xs. slash \<notin> set v" "\<forall>v \<in> set ys. slash \<notin> set v"
    using g(1,2) by (auto simp: good_seg_def)
  from split_abs_path [OF this(1) g(3)] split_abs_path [OF this(2) g(4)]
  have s: "split_on slash (abs_path xs) = [] # xs" "split_on slash (abs_path ys) = [] # ys" .
  from eq s have "([] :: string) # xs = [] # ys" by metis
  then show "xs = ys" by (rule list.inject [THEN iffD1, THEN conjunct2])
qed

lemma prefix_paths_shape:
  "q \<in> set (prefix_paths pre xs) \<Longrightarrow> \<exists>k. 0 < k \<and> k \<le> length xs \<and> q = abs_path (pre @ take k xs)"
proof (induction xs arbitrary: pre)
  case Nil
  then show ?case by simp
next
  case (Cons v vs)
  show ?case
  proof (cases "q = abs_path (pre @ [v])")
    case True
    then show ?thesis by (intro exI [of _ 1]) simp
  next
    case False
    with Cons.prems have "q \<in> set (prefix_paths (pre @ [v]) vs)" by simp
    from Cons.IH [OF this] obtain k where "0 < k" "k \<le> length vs" "q = abs_path ((pre @ [v]) @ take k vs)"
      by blast
    then show ?thesis by (intro exI [of _ "Suc k"]) simp
  qed
qed

lemma leaf_not_other_prefix:
  assumes "\<forall>u \<in> set (segs @ [c]). good_seg u" "\<forall>u \<in> set segs'. good_seg u" "length segs' \<le> length segs"
    "q \<in> set (prefix_paths [] segs')"
  shows "q \<noteq> abs_path (segs @ [c])"
proof
  assume eq: "q = abs_path (segs @ [c])"
  from prefix_paths_shape [OF assms(4)] obtain k where k: "0 < k" "k \<le> length segs'"
    "q = abs_path (take k segs')" by auto
  have "take k segs' = segs @ [c]"
  proof (rule abs_path_inj)
    show "\<forall>u \<in> set (take k segs'). good_seg u" using assms(2) by (auto dest: in_set_takeD)
    show "take k segs' \<noteq> []" using k(1,2) by (cases segs') auto
  qed (use assms(1) eq k(3) in auto)
  then have "length (take k segs') = Suc (length segs)" by simp
  with k(2) assms(3) show False by simp
qed

lemma ensure_dirs_persistent_or_absent:
  "persistent_or_absent m q \<Longrightarrow> persistent_or_absent (ensure_dirs qs m) q"
  by (induction qs arbitrary: m) (auto simp: ensure_dirs_def ensure_dirs_Cons put_node_persistent_or_absent)

lemma register_spec_keeps_prefixes:
  assumes "\<forall>u \<in> set (segs @ [c]). good_seg u" "\<forall>u \<in> set segs'. good_seg u" "length segs' \<le> length segs"
    "list_all (persistent_or_absent m) (prefix_paths [] segs')"
  shows "list_all (persistent_or_absent (register_spec segs c ct d m)) (prefix_paths [] segs')"
  unfolding list.pred_set
proof
  fix q assume q: "q \<in> set (prefix_paths [] segs')"
  have "q \<noteq> abs_path (segs @ [c])" by (rule leaf_not_other_prefix [OF assms(1-3) q])
  moreover have "persistent_or_absent m q" using assms(4) q by (simp add: list.pred_set)
  ultimately show "persistent_or_absent (register_spec segs c ct d m) q"
    by (simp add: register_spec_def persistent_or_absent_def put_node_other
        ensure_dirs_persistent_or_absent [simplified persistent_or_absent_def])
qed

lemma register_spec_root:
  assumes "\<forall>u \<in> set (segs @ [c]). good_seg u" "dir_ok m ''/''"
  shows "dir_ok (register_spec segs c ct d m) ''/''"
proof -
  have "''/'' \<noteq> abs_path (segs @ [c])"
    using abs_path_not_root [of "segs @ [c]"] assms(1) by auto
  with assms(2) show ?thesis
    by (simp add: register_spec_def dir_ok_def put_node_other ensure_dirs_keeps [simplified dir_ok_def])
qed

text \<open>One step of a publisher's loop: the registration succeeds, the store is the
  abstract one, and the preconditions hold again afterwards.\<close>

lemma registePath_step:
  assumes "faults z = []" "segs \<noteq> []" "\<forall>u \<in> set (segs @ [c]). good_seg u"
    "dir_ok (lookup z) ''/''" "list_all (persistent_or_absent (lookup z)) (prefix_paths [] segs)"
  obtains z' where "registePath (abs_path segs) c ct d z = (Inr (abs_path (segs @ [c])), z')"
    "lookup z' = register_spec segs c ct d (lookup z)" "faults z' = []" "dir_ok (lookup z') ''/''"
  using registePath_refines [OF assms] register_spec_root [OF assms(3,4)] by metis

section \<open>Properties of registration\<close>

text \<open>A failing first service call stops every registration before it changes
  anything but the fault oracle.\<close>

lemma innerCreatePath_first_fail:
  "faults z = True # fs \<Longrightarrow> innerCreatePath p d ct z = (Some ErrConnectionLoss, z\<lparr>faults := fs\<rparr>)"
  by (simp add: innerCreatePath_def zk_exists_def fault_step_def)

lemma registePath_first_fail:
  assumes "faults z = True # fs"
  shows "registePath p c ct d z = (Inl ErrConnectionLoss, z\<lparr>faults := fs\<rparr>)"
proof -
  have "traverseCreatePath p None CreatePersistent z = (Some ErrConnectionLoss, z\<lparr>faults := fs\<rparr>)"
  proof (cases "tl (split_on slash p)" rule: remdups_adj.cases)
    case (3 v w vs)
    then show ?thesis using innerCreatePath_first_fail [OF assms] by (simp add: traverseCreatePath_def)
  qed (simp_all add: traverseCreatePath_def innerCreatePath_first_fail [OF assms])
  then show ?thesis by (simp add: registePath_def)
qed

text \<open>C1 (spec \<section>8.1, idempotent path creation). Without connection faults, registering
  the same leaf twice succeeds both times with the same path; the second call adds no
  node, and the leaf then carries the second call's data when it passes data (and
  keeps its data when it passes \<open>nil\<close>).\<close>

theorem registePath_idempotent:
  assumes "faults z = []" "segs \<noteq> []" "\<forall>u \<in> set (segs @ [c]). good_seg u"
    "dir_ok (lookup z) ''/''" "list_all (persistent_or_absent (lookup z)) (prefix_paths [] segs)"
    and first: "registePath (abs_path segs) c ct d z = (r1, z1)"
    and second: "registePath (abs_path segs) c ct d' z1 = (r2, z2)"
  shows "r1 = Inr (abs_path (segs @ [c])) \<and> r2 = r1
     \<and> lookup z2 = put_node (lookup z1) (abs_path (segs @ [c])) d' ct
     \<and> dom (lookup z2) = dom (lookup z1)
     \<and> map_option zdata (lookup z2 (abs_path (segs @ [c])))
          = (case d' of None \<Rightarrow> map_option zdata (lookup z1 (abs_path (segs @ [c]))) | Some x \<Rightarrow> Some x)"
proof -
  let ?leaf = "abs_path (segs @ [c])"
  from registePath_refines [OF assms(1-5), of ct d] first have
    r1: "r1 = Inr ?leaf" and z1: "lookup z1 = register_spec segs c ct d (lookup z)" "faults z1 = []"
    by auto
  have h1: "dir_ok (lookup z1) ''/''" "list_all (persistent_or_absent (lookup z1)) (prefix_paths [] segs)"
    using register_spec_again(1,2) [OF assms(2-5)] z1(1) by simp_all
  from registePath_refines [OF z1(2) assms(2,3) h1, of ct d'] second have
    r2: "r2 = Inr ?leaf" and z2: "lookup z2 = register_spec segs c ct d' (lookup z1)"
    by auto
  have z2': "lookup z2 = put_node (lookup z1) ?leaf d' ct"
    using z2 z1(1) register_spec_again(3) [OF assms(2-5)] by simp
  have leaf: "lookup z1 ?leaf \<noteq> None"
    using z1(1) by (simp add: register_spec_def put_node_present)
  show ?thesis
    using r1 r2 z2' leaf dom_put_node [of "lookup z1" ?leaf d' ct]
    by (auto simp: put_node_def split: option.splits)
qed

theorem registePath_idempotent_witness:
  "\<exists>r1 z1 r2 z2.
     registePath ''/kiteq/sub/t1'' ''g1-bind'' CreatePersistent (Some ''a'') zk_init = (r1, z1)
   \<and> registePath ''/kiteq/sub/t1'' ''g1-bind'' CreatePersistent (Some ''b'') z1 = (r2, z2)
   \<and> r2 = Inr ''/kiteq/sub/t1/g1-bind''
   \<and> map_option zdata (lookup z2 ''/kiteq/sub/t1/g1-bind'') = Some ''b''"
proof -
  let ?segs = "[''kiteq'', ''sub'', ''t1'']"
  have p: "abs_path ?segs = ''/kiteq/sub/t1''"
    and l: "abs_path (?segs @ [''g1-bind'']) = ''/kiteq/sub/t1/g1-bind''"
    by (simp_all add: abs_path_def slash_def)
  obtain r1 z1 where
    1: "registePath (abs_path ?segs) ''g1-bind'' CreatePersistent (Some ''a'') zk_init = (r1, z1)"
    by fastforce
  obtain r2 z2 where
    2: "registePath (abs_path ?segs) ''g1-bind'' CreatePersistent (Some ''b'') z1 = (r2, z2)"
    by fastforce
  have h: "faults zk_init = []" "?segs \<noteq> []" "\<forall>u \<in> set (?segs @ [''g1-bind'']). good_seg u"
    "dir_ok (lookup zk_init) ''/''"
    "list_all (persistent_or_absent (lookup zk_init)) (prefix_paths [] ?segs)"
    by (simp_all add: zk_init_def lookup_def dir_ok_def persistent_or_absent_def empty_dir_def
        good_seg_def slash_def abs_path_def)
  note R = registePath_idempotent [OF h 1 2]
  from R have a: "r1 = Inr (abs_path (?segs @ [''g1-bind'']))" "r2 = r1" by blast+
  from R have "map_option zdata (lookup z2 (abs_path (?segs @ [''g1-bind''])))
      = (case Some ''b'' of None \<Rightarrow> map_option zdata (lookup z1 (abs_path (?segs @ [''g1-bind''])))
         | Some x \<Rightarrow> Some x)"
    by blast
  then have b: "map_option zdata (lookup z2 (abs_path (?segs @ [''g1-bind'']))) = Some ''b''"
    by (simp only: option.case)
  from 1 2 a b show ?thesis unfolding p l by blast
qed

text \<open>C2 (spec \<section>3 path invariant, \<section>7 registration errors). Under any pattern of
  connection failures, a registration never removes a node, and one that reports
  success returns \<open>path + "/" + child\<close> with every path the traversal visited and the
  leaf itself present in the store.\<close>

theorem registePath_success_exists:
  assumes "registePath path c ct d z = (Inr fp, z')"
  shows "fp = path @ ''/'' @ c \<and> dom (lookup z) \<subseteq> dom (lookup z')
     \<and> (\<forall>q \<in> set (loop_paths ''/'' (tl (split_on slash path)) @ [fp]). lookup z' q \<noteq> None)"
  using registePath_frame [OF assms] by blast

theorem registePath_success_exists_witness:
  "\<exists>z'. registePath ''/kiteq/server/t1'' ''h:1'' CreateEphemeral None zk_init
          = (Inr ''/kiteq/server/t1/h:1'', z')
     \<and> (\<forall>q \<in> set [''/kiteq'', ''/kiteq/server'', ''/kiteq/server/t1'', ''/kiteq/server/t1/h:1''].
          lookup z' q \<noteq> None)"
proof -
  obtain z' where
    run: "registePath ''/kiteq/server/t1'' ''h:1'' CreateEphemeral None zk_init
            = (Inr ''/kiteq/server/t1/h:1'', z')"
    using registePath_refines [of zk_init "[''kiteq'', ''server'', ''t1'']" "''h:1''" CreateEphemeral None]
    by (auto simp: zk_init_def lookup_def dir_ok_def persistent_or_absent_def empty_dir_def
        good_seg_def slash_def abs_path_def)
  have lp: "loop_paths ''/'' (tl (split_on slash ''/kiteq/server/t1''))
              = [''/kiteq'', ''/kiteq/server'', ''/kiteq/server/t1'']"
    by (simp add: slash_def)
  from registePath_success_exists [OF run] lp run show ?thesis by auto
qed

text \<open>C3 (spec \<section>4.2 bounded confirmation poll, \<section>5 blocking). Whatever the faults, a
  registration sleeps at most 1000 ms per \<open>innerCreatePath\<close> call (five polls of
  0, 100, 200, 300, 400 ms), that is at most \<open>1000 * (n + 1)\<close> ms for a path whose
  traversal visits \<open>n\<close> paths, and never moves the clock backwards.\<close>

theorem registePath_clock_bound:
  "clock z \<le> clock (snd (registePath path c ct d z)) \<and>
   clock (snd (registePath path c ct d z))
     \<le> clock z + 1000 * (length (loop_paths ''/'' (tl (split_on slash path))) + 1)"
  using registePath_frame [of path c ct d z "fst (registePath path c ct d z)" "snd (registePath path c ct d z)"]
  by simp

text \<open>C4 (spec \<section>6 startup). With a reachable service whose root exists, \<open>NewZKManager\<close>
  succeeds, uses \<open>localhost:2181\<close> when no host is given and the comma-separated list
  otherwise, with a 5 s timeout, and leaves \<open>/kiteq\<close> in the store (created
  persistent if it was absent, untouched otherwise).\<close>

theorem NewZKManager_bootstrap:
  assumes "faults z = []" "dir_ok (lookup z) ''/''"
  shows "\<exists>z'. NewZKManager zkhosts z =
           (Inr \<lparr>session = \<lparr>Addrs = split_on CHR '','' (if zkhosts = [] then ''localhost:2181'' else zkhosts),
                 Timeout_ms = 5000\<rparr>\<rparr>, z')
         \<and> lookup z' = put_node (lookup z) KITEQ None CreatePersistent"
proof (cases "lookup z KITEQ")
  case None
  have "create_ok z KITEQ"
    unfolding KITEQ_abs_path using assms(2)
    by (intro create_ok_abs_path [of "[]" "''kiteq''", simplified]) (simp_all add: good_seg_def slash_def)
  then obtain pn where ok: "valid_path KITEQ" "KITEQ \<noteq> ''/''" "lookup z (parent_path KITEQ) = Some pn"
      "zmode pn = CreatePersistent"
    by (auto simp: create_ok_def split: option.splits)
  from srv_create_ok [OF ok None] obtain z2 where cr: "srv_create KITEQ [] CreatePersistent z = Inr z2"
    by blast
  with srv_create_Inr [OF cr] None assms(1) show ?thesis
    by (simp add: NewZKManager_def zk_simps add_watch_def put_node_def)
next
  case (Some n)
  with assms(1) show ?thesis
    by (simp add: NewZKManager_def zk_simps add_watch_def put_node_def)
qed

theorem NewZKManager_bootstrap_witness:
  "\<exists>z'. NewZKManager '''' zk_init = (Inr \<lparr>session = \<lparr>Addrs = [''localhost:2181''], Timeout_ms = 5000\<rparr>\<rparr>, z')
     \<and> lookup z' KITEQ = Some empty_dir"
proof -
  have h: "faults zk_init = []" "dir_ok (lookup zk_init) ''/''"
    by (simp_all add: zk_init_def lookup_def dir_ok_def empty_dir_def)
  have none: "lookup zk_init KITEQ = None"
    by (simp add: zk_init_def lookup_def KITEQ_def)
  from NewZKManager_bootstrap [OF h, of "''''"] none show ?thesis
    by (auto simp: put_node_def empty_dir_def)
qed

text \<open>C17 (spec \<section>6 startup, the panics). When the root \<open>/kiteq\<close> is absent and one
  of the first three calls fails, \<open>NewZKManager\<close> panics with the error of that call
  (dial, root \<open>Exists\<close>, root \<open>Create\<close>) and the service is left as it was, only the
  fault oracle having advanced past the calls made.\<close>

theorem NewZKManager_panics:
  assumes "lookup z KITEQ = None" "faults z = f1 # f2 # f3 # fs" "f1 \<or> f2 \<or> f3"
  shows "NewZKManager zkhosts z =
    (Inl (if f1 then DialFailed else if f2 then RootExistsFailed ErrConnectionLoss
          else RootCreateFailed ErrConnectionLoss),
     z\<lparr>faults := (if f1 then f2 # f3 # fs else if f2 then f3 # fs else fs)\<rparr>)"
  using assms
  by (auto simp: NewZKManager_def zk_exists_def zk_create_def fault_step_def add_watch_def Let_def lookup_def)

theorem NewZKManager_panics_witness:
  "lookup (zk_init\<lparr>faults := [False, False, True]\<rparr>) KITEQ = None
   \<and> NewZKManager ''zk1:2181'' (zk_init\<lparr>faults := [False, False, True]\<rparr>)
     = (Inl (RootCreateFailed ErrConnectionLoss), zk_init)"
proof -
  have l: "lookup (zk_init\<lparr>faults := [False, False, True]\<rparr>) KITEQ = None"
    by (simp add: zk_init_def lookup_def KITEQ_def)
  from NewZKManager_panics [OF l, of False False True "[]" "''zk1:2181''"] l show ?thesis
    by (simp add: zk_init_def)
qed

end
