(* ===== verification/Publishers.thy ===== *)
theory Publishers
  imports Registrar Binding "HOL-Library.Multiset"
begin

text \<open>
  PresencePublisher and BindingPublisher of \<open>src/binding/zk_manager.go\<close>:
  \<open>PublishQServer\<close> (lines 82-95), \<open>PublishTopics\<close> (98-110) and \<open>PublishBindings\<close>
  (113-151) with its grouping loop (116-125). Each \<open>for ... range\<close> over a slice is a
  recursion over the list that returns at the first error, as the Go code does. The
  range over the map \<open>groupBind\<close> (line 127) visits the groups in an order Go leaves
  unspecified; the model visits them in the order they were first inserted. The
  refinement theorem for \<open>PublishBindings\<close> states the final leaf of every topic
  and the nodes left untouched, which do not depend on that order; which topics are
  already written when an error stops the loop does.
\<close>

section \<open>Operations\<close>

fun PublishQServer :: "string \<Rightarrow> string list \<Rightarrow> zk \<Rightarrow> zk_error option \<times> zk" where
  "PublishQServer hostport [] z = (None, z)"
| "PublishQServer hostport (topic # topics) z =
     (case registePath (server_path topic) hostport CreateEphemeral None z of
        (Inl err, z') \<Rightarrow> (Some err, z')
      | (Inr _, z') \<Rightarrow> PublishQServer hostport topics z')"

fun PublishTopics :: "string list \<Rightarrow> string \<Rightarrow> string \<Rightarrow> zk \<Rightarrow> zk_error option \<times> zk" where
  "PublishTopics [] groupId hostport z = (None, z)"
| "PublishTopics (topic # topics) groupId hostport z =
     (case registePath (pub_path topic groupId) hostport CreateEphemeral None z of
        (Inl err, z') \<Rightarrow> (Some err, z')
      | (Inr _, z') \<Rightarrow> PublishTopics topics groupId hostport z')"

text \<open>Lines 116-125: \<open>groupBind[b.Topic] = append(groupBind[b.Topic], b)\<close> after
  \<open>b.GroupId = groupId\<close>; the map is an association list in first-insertion order.\<close>

fun group_loop :: "string \<Rightarrow> (string \<times> binding list) list \<Rightarrow> binding list \<Rightarrow> (string \<times> binding list) list" where
  "group_loop groupId groupBind [] = groupBind"
| "group_loop groupId groupBind (b # bs) =
     (let g = (case map_of groupBind (Topic b) of None \<Rightarrow> [] | Some g \<Rightarrow> g);
          b' = b\<lparr>GroupId := groupId\<rparr>
      in group_loop groupId (AList.update (Topic b) (g @ [b']) groupBind) bs)"

datatype publish_error = MarshalErr string | RegisterErr zk_error

text \<open>Lines 127-149: marshal each group, then register \<open>{groupId}-bind\<close> under the
  topic, always persistent (the ephemeral branch for non-persistent bindings is
  commented out in the source).\<close>

fun publish_groups :: "codec \<Rightarrow> string \<Rightarrow> (string \<times> binding list) list \<Rightarrow> zk \<Rightarrow> publish_error option \<times> zk" where
  "publish_groups cd groupId [] z = (None, z)"
| "publish_groups cd groupId ((topic, binds) # rest) z =
     (case MarshalBinds cd binds of
        Inl err \<Rightarrow> (Some (MarshalErr err), z)
      | Inr data \<Rightarrow>
          (let createType = CreatePersistent in
           case registePath (sub_path topic) (bind_name groupId) createType (Some data) z of
             (Inl err, z') \<Rightarrow> (Some (RegisterErr err), z')
           | (Inr _, z') \<Rightarrow> publish_groups cd groupId rest z'))"

definition PublishBindings :: "codec \<Rightarrow> string \<Rightarrow> binding list \<Rightarrow> zk \<Rightarrow> publish_error option \<times> zk" where
  "PublishBindings cd groupId bindings z = publish_groups cd groupId (group_loop groupId [] bindings) z"

section \<open>Abstract specification\<close>

text \<open>The segments of the paths the publishers register under, and the pure grouping
  function spec \<section>9 asks for: the bindings of one topic, in input order, with the
  group id set.\<close>

definition server_segs :: "string \<Rightarrow> string list" where
  "server_segs topic = [''kiteq'', ''server'', topic]"

definition pub_segs :: "string \<Rightarrow> string \<Rightarrow> string list" where
  "pub_segs topic groupId = [''kiteq'', ''pub'', topic, groupId]"

definition sub_segs :: "string \<Rightarrow> string list" where
  "sub_segs topic = [''kiteq'', ''sub'', topic]"

definition group_spec :: "string \<Rightarrow> binding list \<Rightarrow> string \<Rightarrow> binding list" where
  "group_spec groupId bs t = [b\<lparr>GroupId := groupId\<rparr>. b \<leftarrow> bs, Topic b = t]"

section \<open>Lemmas: paths and the abstract store\<close>

lemma server_path_segs: "server_path t = abs_path (server_segs t)"
  by (simp add: server_path_def server_segs_def namespace_defs abs_path_def slash_def)

lemma pub_path_segs: "pub_path t g = abs_path (pub_segs t g)"
  by (simp add: pub_path_def pub_segs_def namespace_defs abs_path_def slash_def)

lemma sub_path_segs: "sub_path t = abs_path (sub_segs t)"
  by (simp add: sub_path_def sub_segs_def namespace_defs abs_path_def slash_def)

lemma good_kiteq [simp]: "good_seg ''kiteq''" "good_seg ''server''" "good_seg ''pub''" "good_seg ''sub''"
  by (simp_all add: good_seg_def slash_def)

lemma ensure_dirs_other: "q \<notin> set qs \<Longrightarrow> ensure_dirs qs m q = m q"
  by (induction qs arbitrary: m) (auto simp: ensure_dirs_def ensure_dirs_Cons put_node_other)

lemma register_spec_other:
  "q \<notin> set (prefix_paths [] segs) \<Longrightarrow> q \<noteq> abs_path (segs @ [c]) \<Longrightarrow> register_spec segs c ct d m q = m q"
  by (simp add: register_spec_def put_node_other ensure_dirs_other)

lemma register_spec_leaf_data:
  "map_option zdata (register_spec segs c ct (Some x) m (abs_path (segs @ [c]))) = Some x"
  by (simp add: register_spec_def put_node_def split: option.split)

lemma sub_leaf_inj:
  "good_seg t \<Longrightarrow> good_seg t' \<Longrightarrow> good_seg c \<Longrightarrow>
   abs_path (sub_segs t @ [c]) = abs_path (sub_segs t' @ [c]) \<Longrightarrow> t = t'"
  by (drule abs_path_inj [rotated 4]) (auto simp: sub_segs_def)

lemma fold_register_frame:
  "\<forall>(t', g') \<in> set xs. q \<notin> set (prefix_paths [] (sub_segs t')) \<and> q \<noteq> abs_path (sub_segs t' @ [c]) \<Longrightarrow>
   fold (\<lambda>(t, g) m. register_spec (sub_segs t) c ct (D g) m) xs m q = m q"
  by (induction xs arbitrary: m) (auto simp: register_spec_other)

section \<open>Lemmas: presence publishers\<close>

lemma register_spec_keeps_all:
  assumes "\<forall>u \<in> set (segs @ [c]). good_seg u"
    "\<forall>x \<in> X. (\<forall>u \<in> set (S x). good_seg u) \<and> length (S x) \<le> length segs"
    "\<forall>x \<in> X. list_all (persistent_or_absent m) (prefix_paths [] (S x))"
  shows "\<forall>x \<in> X. list_all (persistent_or_absent (register_spec segs c ct d m)) (prefix_paths [] (S x))"
  using assms register_spec_keeps_prefixes by blast

text \<open>Both presence publishers run the same loop: \<open>registePath\<close> of one ephemeral
  \<open>hostport\<close> leaf per topic, stopping at the first error. Without faults each step is
  the abstract registration, and the next topic's preconditions still hold.\<close>

section \<open>Lemmas: grouping and the binding publisher\<close>

lemma group_loop_lookup:
  "map_of (group_loop groupId acc bs) t =
     (case map_of acc t of
        None \<Rightarrow> (if group_spec groupId bs t = [] then None else Some (group_spec groupId bs t))
      | Some g \<Rightarrow> Some (g @ group_spec groupId bs t))"
proof (induction bs arbitrary: acc)
  case Nil
  then show ?case by (simp add: group_spec_def split: option.split)
next
  case (Cons b bs)
  show ?case
    by (simp add: Cons.IH group_spec_def update_conv' Let_def split: option.split)
qed

lemma group_loop_distinct:
  "distinct (map fst acc) \<Longrightarrow> distinct (map fst (group_loop groupId acc bs))"
  by (induction bs arbitrary: acc) (simp_all add: Let_def distinct_update)

lemma group_loop_member:
  assumes "(t, g) \<in> set (group_loop groupId [] bs)"
  shows "g = group_spec groupId bs t" "\<exists>b \<in> set bs. Topic b = t"
proof -
  have "distinct (map fst (group_loop groupId [] bs))" by (rule group_loop_distinct) simp
  with assms have "map_of (group_loop groupId [] bs) t = Some g" by (rule map_of_is_SomeI [rotated])
  then have g: "group_spec groupId bs t \<noteq> []" "g = group_spec groupId bs t"
    by (simp_all add: group_loop_lookup split: if_splits)
  then show "g = group_spec groupId bs t" by simp
  from g(1) show "\<exists>b \<in> set bs. Topic b = t" by (auto simp: group_spec_def filter_empty_conv)
qed

lemma group_loop_has_topic:
  assumes "b \<in> set bs"
  shows "(Topic b, group_spec groupId bs (Topic b)) \<in> set (group_loop groupId [] bs)"
proof -
  have "group_spec groupId bs (Topic b) \<noteq> []" using assms by (auto simp: group_spec_def filter_empty_conv)
  then have "map_of (group_loop groupId [] bs) (Topic b) = Some (group_spec groupId bs (Topic b))"
    by (simp add: group_loop_lookup)
  then show ?thesis by (rule map_of_SomeD)
qed

lemma group_loop_single:
  assumes "\<forall>b \<in> set bs. Topic b = t" "bs \<noteq> []"
  shows "group_loop groupId [] bs = [(t, group_spec groupId bs t)]"
proof -
  let ?G = "group_loop groupId [] bs"
  have d: "distinct (map fst ?G)" by (rule group_loop_distinct) simp
  have k: "fst x = t" if x: "x \<in> set ?G" for x
  proof -
    obtain t' g' where e: "x = (t', g')" by fastforce
    from group_loop_member(2) [of t' g' groupId bs] x e obtain b where "b \<in> set bs" "Topic b = t'"
      by auto
    with assms(1) e show ?thesis by auto
  qed
  obtain b where "b \<in> set bs" using assms(2) by (cases bs) auto
  with group_loop_has_topic [OF this, of groupId] assms(1) have m: "(t, group_spec groupId bs t) \<in> set ?G"
    by simp
  have "set (map fst ?G) \<subseteq> {t}" using k by auto
  with d have "length ?G \<le> 1"
    using distinct_card [OF d] card_mono [of "{t}" "set (map fst ?G)"] by simp
  with m show ?thesis by (cases ?G rule: list.exhaust) (auto simp: length_Suc_conv)
qed

lemma publish_groups_refines:
  assumes "faults z = []" "good_seg (bind_name groupId)" "\<forall>(t, g) \<in> set gs. good_seg t \<and> \<not> isl (MarshalBinds cd g)"
    "dir_ok (lookup z) ''/''" "\<forall>(t, g) \<in> set gs. list_all (persistent_or_absent (lookup z)) (prefix_paths [] (sub_segs t))"
  shows "\<exists>z'. publish_groups cd groupId gs z = (None, z')
    \<and> lookup z' = fold (\<lambda>(t, g) m. register_spec (sub_segs t) (bind_name groupId) CreatePersistent
                           (Some (projr (MarshalBinds cd g))) m) gs (lookup z)"
  using assms
proof (induction gs arbitrary: z)
  case Nil
  then show ?case by simp
next
  case (Cons tg gs)
  obtain t g where tg: "tg = (t, g)" by fastforce
  obtain data where data: "MarshalBinds cd g = Inr data" using Cons.prems(3) tg by (cases "MarshalBinds cd g") auto
  have gd: "\<forall>u \<in> set (sub_segs t @ [bind_name groupId]). good_seg u"
    using Cons.prems(2,3) tg by (simp add: sub_segs_def)
  obtain z1 where z1: "registePath (abs_path (sub_segs t)) (bind_name groupId) CreatePersistent (Some data) z
      = (Inr (abs_path (sub_segs t @ [bind_name groupId])), z1)"
    "lookup z1 = register_spec (sub_segs t) (bind_name groupId) CreatePersistent (Some data) (lookup z)"
    "faults z1 = []" "dir_ok (lookup z1) ''/''"
    using registePath_step [OF Cons.prems(1) _ gd Cons.prems(4)] Cons.prems(5) tg
    by (auto simp: sub_segs_def)
  have pre: "\<forall>(t', g') \<in> set gs. list_all (persistent_or_absent (lookup z1)) (prefix_paths [] (sub_segs t'))"
  proof (intro ballI, clarify)
    fix t' g' assume t': "(t', g') \<in> set gs"
    have "\<forall>u \<in> set (sub_segs t'). good_seg u" using Cons.prems(3) t' by (auto simp: sub_segs_def)
    moreover have "length (sub_segs t') \<le> length (sub_segs t)" by (simp add: sub_segs_def)
    moreover have "list_all (persistent_or_absent (lookup z)) (prefix_paths [] (sub_segs t'))"
      using Cons.prems(5) t' by auto
    ultimately show "list_all (persistent_or_absent (lookup z1)) (prefix_paths [] (sub_segs t'))"
      unfolding z1(2) by (rule register_spec_keeps_prefixes [OF gd])
  qed
  from Cons.IH [OF z1(3) Cons.prems(2) _ z1(4) pre] Cons.prems(3) obtain z' where
    "publish_groups cd groupId gs z1 = (None, z')"
    "lookup z' = fold (\<lambda>(t, g) m. register_spec (sub_segs t) (bind_name groupId) CreatePersistent
                           (Some (projr (MarshalBinds cd g))) m) gs (lookup z1)"
    by auto
  with z1 tg data show ?case by (simp add: sub_path_segs)
qed

lemma sub_leaf_path: "sub_path t @ ''/'' @ c = abs_path (sub_segs t @ [c])"
proof -
  have "sub_segs t \<noteq> []" by (simp add: sub_segs_def)
  from abs_path_child [OF this, of c] show ?thesis by (simp add: sub_path_segs)
qed

text \<open>In the fold of registrations over distinct topics, a topic's leaf ends with the
  data of its own registration: the later ones never touch it.\<close>

lemma fold_register_leaf:
  assumes "good_seg c" "distinct (map fst G)" "(t, g) \<in> set G" "\<forall>(t', g') \<in> set G. good_seg t'"
  shows "map_option zdata (fold (\<lambda>(t, g) m. register_spec (sub_segs t) c CreatePersistent (Some (D g)) m) G m
           (abs_path (sub_segs t @ [c]))) = Some (D g)"
proof -
  let ?F = "\<lambda>(t, g) m. register_spec (sub_segs t) c CreatePersistent (Some (D g)) m"
  obtain pre post where G: "G = pre @ (t, g) # post"
    using split_list [OF assms(3)] by blast
  with assms(2) have notin: "t \<notin> fst ` set post" by simp
  have keep: "fold ?F post m' (abs_path (sub_segs t @ [c])) = m' (abs_path (sub_segs t @ [c]))" for m'
  proof (rule fold_register_frame, intro ballI, clarify, intro conjI)
    fix t' g' assume tg': "(t', g') \<in> set post"
    have gt: "good_seg t" "good_seg t'" using assms(3,4) tg' G by auto
    show "abs_path (sub_segs t @ [c]) \<notin> set (prefix_paths [] (sub_segs t'))"
      using leaf_not_other_prefix [of "sub_segs t" c "sub_segs t'"] gt assms(1)
      by (auto simp: sub_segs_def)
    have "t' \<noteq> t" using notin tg' by force
    then show "abs_path (sub_segs t @ [c]) \<noteq> abs_path (sub_segs t' @ [c])"
      using sub_leaf_inj [OF gt(1,2) assms(1)] by blast
  qed
  show ?thesis using G keep register_spec_leaf_data by simp
qed

lemmas init_facts = zk_init_def lookup_def dir_ok_def persistent_or_absent_def empty_dir_def good_seg_def slash_def

lemmas spec_eval = register_spec_def ensure_dirs_def put_node_def abs_path_def

text \<open>Registrations of two different topics commute, so the fold over the groups
  does not depend on their order.\<close>

lemma ensure_dirs_at:
  "ensure_dirs qs m q = (case m q of None \<Rightarrow> if q \<in> set qs then Some empty_dir else None | Some n \<Rightarrow> Some n)"
  by (induction qs arbitrary: m)
    (auto simp: ensure_dirs_def ensure_dirs_Cons put_node_def empty_dir_def split: option.splits)

lemma put_node_at_cong: "m1 q = m2 q \<Longrightarrow> put_node m1 q d ct q = put_node m2 q d ct q"
  by (simp add: put_node_def split: option.split)

lemma register_spec_commute:
  assumes "good_seg t1" "good_seg t2" "good_seg c" "t1 \<noteq> t2"
  shows "register_spec (sub_segs t1) c ct d1 (register_spec (sub_segs t2) c ct d2 m)
       = register_spec (sub_segs t2) c ct d2 (register_spec (sub_segs t1) c ct d1 m)"
proof (rule ext)
  fix q
  let ?P1 = "prefix_paths [] (sub_segs t1)" and ?P2 = "prefix_paths [] (sub_segs t2)"
  let ?l1 = "abs_path (sub_segs t1 @ [c])" and ?l2 = "abs_path (sub_segs t2 @ [c])"
  let ?R1 = "register_spec (sub_segs t1) c ct d1" and ?R2 = "register_spec (sub_segs t2) c ct d2"
  have g: "\<forall>u \<in> set (sub_segs t1 @ [c]). good_seg u" "\<forall>u \<in> set (sub_segs t2 @ [c]). good_seg u"
    using assms(1-3) by (simp_all add: sub_segs_def good_kiteq)
  have ne: "sub_segs t1 \<noteq> []" "sub_segs t2 \<noteq> []" by (simp_all add: sub_segs_def)
  have l: "?l1 \<noteq> ?l2" using sub_leaf_inj [OF assms(1-3)] assms(4) by blast
  have n1: "?l1 \<notin> set ?P1" "?l1 \<notin> set ?P2"
    using leaf_not_prefix [OF ne(1)] leaf_not_other_prefix [OF g(1), of "sub_segs t2"] g(2)
    by (auto simp: sub_segs_def)
  have n2: "?l2 \<notin> set ?P2" "?l2 \<notin> set ?P1"
    using leaf_not_prefix [OF ne(2)] leaf_not_other_prefix [OF g(2), of "sub_segs t1"] g(1)
    by (auto simp: sub_segs_def)
  show "?R1 (?R2 m) q = ?R2 (?R1 m) q"
  proof (cases "q = ?l1 \<or> q = ?l2")
    case True
    then show ?thesis
    proof
      assume q: "q = ?l1"
      have "?R1 (?R2 m) q = put_node (ensure_dirs ?P1 (?R2 m)) ?l1 d1 ct ?l1" using q by (simp add: register_spec_def)
      also have "\<dots> = put_node (ensure_dirs ?P1 m) ?l1 d1 ct ?l1"
        by (rule put_node_at_cong) (use l n1 in \<open>simp add: ensure_dirs_other register_spec_other\<close>)
      also have "\<dots> = ?R2 (?R1 m) q" using q l n1(2) by (simp add: register_spec_def put_node_other ensure_dirs_other)
      finally show ?thesis .
    next
      assume q: "q = ?l2"
      have "?R2 (?R1 m) q = put_node (ensure_dirs ?P2 (?R1 m)) ?l2 d2 ct ?l2" using q by (simp add: register_spec_def)
      also have "\<dots> = put_node (ensure_dirs ?P2 m) ?l2 d2 ct ?l2"
        by (rule put_node_at_cong) (use l n2 in \<open>simp add: ensure_dirs_other register_spec_other\<close>)
      also have "\<dots> = ?R1 (?R2 m) q" using q l n2(2) by (simp add: register_spec_def put_node_other ensure_dirs_other)
      finally show ?thesis by simp
    qed
  next
    case False
    then show ?thesis unfolding register_spec_def
      by (simp add: put_node_other ensure_dirs_at split: option.split)
  qed
qed


lemma fold_register_perm:
  assumes "good_seg c" "distinct (map fst G)" "\<forall>(t, g) \<in> set G. good_seg t" "mset G' = mset G"
  shows "fold (\<lambda>(t, g) m. register_spec (sub_segs t) c ct (D g) m) G' m
       = fold (\<lambda>(t, g) m. register_spec (sub_segs t) c ct (D g) m) G m"
proof -
  let ?f = "\<lambda>(t, g) m. register_spec (sub_segs t) c ct (D g) m"
  have "fold ?f G' = fold ?f G"
  proof (rule fold_multiset_equiv [OF _ assms(4)])
    fix x y
    assume "x \<in> set G'" "y \<in> set G'"
    then have xy: "x \<in> set G" "y \<in> set G" using mset_eq_setD [OF assms(4)] by auto
    obtain t1 g1 t2 g2 where e: "x = (t1, g1)" "y = (t2, g2)" by fastforce
    show "?f x \<circ> ?f y = ?f y \<circ> ?f x"
    proof (cases "t1 = t2")
      case True
      then have "g1 = g2" using eq_key_imp_eq_value [OF assms(2)] xy e by blast
      with True e show ?thesis by simp
    next
      case False
      have "good_seg t1" "good_seg t2" using assms(3) xy e by auto
      with register_spec_commute [OF _ _ assms(1) False] e show ?thesis by (simp add: fun_eq_iff)
    qed
  qed
  then show ?thesis by simp
qed

text \<open>A successful \<open>PublishBindings\<close> is the fold of the abstract registrations of
  its groups, and each topic's leaf holds its group's encoding.\<close>

lemma PublishBindings_leaves:
  assumes "faults z = []" "good_seg (bind_name groupId)" "\<forall>b \<in> set bs. good_seg (Topic b)"
    "dir_ok (lookup z) ''/''"
    "\<forall>b \<in> set bs. list_all (persistent_or_absent (lookup z)) (prefix_paths [] (sub_segs (Topic b)))"
    "\<forall>b \<in> set bs. \<not> isl (MarshalBinds cd (group_spec groupId bs (Topic b)))"
  shows "\<exists>z'. PublishBindings cd groupId bs z = (None, z')
    \<and> lookup z' = fold (\<lambda>(t, g) m. register_spec (sub_segs t) (bind_name groupId) CreatePersistent
                      (Some (projr (MarshalBinds cd g))) m) (group_loop groupId [] bs) (lookup z)
    \<and> (\<forall>b \<in> set bs. map_option zdata (lookup z' (sub_path (Topic b) @ ''/'' @ bind_name groupId))
                    = Some (projr (MarshalBinds cd (group_spec groupId bs (Topic b)))))"
proof -
  let ?G = "group_loop groupId [] bs"
  let ?c = "bind_name groupId"
  let ?F = "\<lambda>(t, g) m. register_spec (sub_segs t) ?c CreatePersistent (Some (projr (MarshalBinds cd g))) m"
  have hyps: "\<forall>(t, g) \<in> set ?G. good_seg t \<and> \<not> isl (MarshalBinds cd g)"
    "\<forall>(t, g) \<in> set ?G. list_all (persistent_or_absent (lookup z)) (prefix_paths [] (sub_segs t))"
    using assms(3,5,6) group_loop_member by fastforce+
  from publish_groups_refines [OF assms(1,2) hyps(1) assms(4) hyps(2)] obtain z' where
    z': "PublishBindings cd groupId bs z = (None, z')" "lookup z' = fold ?F ?G (lookup z)"
    by (auto simp: PublishBindings_def)
  have "map_option zdata (lookup z' (abs_path (sub_segs (Topic b) @ [?c])))
                = Some (projr (MarshalBinds cd (group_spec groupId bs (Topic b))))" if b: "b \<in> set bs" for b
    unfolding z'(2)
  proof (rule fold_register_leaf [OF assms(2)])
    show "distinct (map fst ?G)" by (rule group_loop_distinct) simp
    show "(Topic b, group_spec groupId bs (Topic b)) \<in> set ?G" by (rule group_loop_has_topic [OF b])
    show "\<forall>(t', g') \<in> set ?G. good_seg t'" using hyps(1) by blast
  qed
  then show ?thesis using z' sub_leaf_path [of _ ?c] by auto
qed

section \<open>Properties of the publishers\<close>

lemma publish_groups_first_fail:
  assumes "faults z = True # fs" "G \<noteq> []"
  shows "fst (publish_groups cd g G z) \<noteq> None \<and> snd (publish_groups cd g G z) \<in> {z, z\<lparr>faults := fs\<rparr>}"
proof -
  obtain t bs rest where G: "G = (t, bs) # rest" using assms(2) by (cases G) auto
  show ?thesis using registePath_first_fail [OF assms(1)]
    by (simp add: G Let_def split: sum.split)
qed

lemma group_loop_not_Nil: "bs \<noteq> [] \<Longrightarrow> group_loop g [] bs \<noteq> []"
  using group_loop_has_topic [of "hd bs" bs g] by (cases bs) auto

text \<open>C5 (spec \<section>4.3, broker presence). Without connection faults, with a host
  address and topic names that are single path segments, a root directory and no
  ephemeral node on the way, \<open>PublishQServer\<close> succeeds and leaves exactly the store of
  the abstract registrations, one ephemeral \<open>/kiteq/server/{topic}/{hostport}\<close> per
  topic in order, creating the missing directories persistent.\<close>

theorem PublishQServer_refines:
  assumes "faults z = []" "good_seg hostport" "\<forall>t \<in> set topics. good_seg t" "dir_ok (lookup z) ''/''"
    "\<forall>t \<in> set topics. list_all (persistent_or_absent (lookup z)) (prefix_paths [] (server_segs t))"
  shows "\<exists>z'. PublishQServer hostport topics z = (None, z')
    \<and> lookup z' = fold (\<lambda>t m. register_spec (server_segs t) hostport CreateEphemeral None m) topics (lookup z)"
  using assms
proof (induction topics arbitrary: z)
  case Nil
  then show ?case by simp
next
  case (Cons t ts)
  have g: "\<forall>u \<in> set (server_segs t @ [hostport]). good_seg u"
    using Cons.prems(2,3) by (simp add: server_segs_def)
  obtain z1 where z1: "registePath (abs_path (server_segs t)) hostport CreateEphemeral None z
      = (Inr (abs_path (server_segs t @ [hostport])), z1)"
    "lookup z1 = register_spec (server_segs t) hostport CreateEphemeral None (lookup z)"
    "faults z1 = []" "dir_ok (lookup z1) ''/''"
    using registePath_step [OF Cons.prems(1) _ g Cons.prems(4)] Cons.prems(5)
    by (auto simp: server_segs_def)
  have "\<forall>t' \<in> set ts. list_all (persistent_or_absent (lookup z1)) (prefix_paths [] (server_segs t'))"
    unfolding z1(2) using Cons.prems(3,5)
    by (intro register_spec_keeps_all [OF g]) (auto simp: server_segs_def)
  from Cons.IH [OF z1(3) Cons.prems(2) _ z1(4) this] Cons.prems(3) obtain z' where
    "PublishQServer hostport ts z1 = (None, z')"
    "lookup z' = fold (\<lambda>t m. register_spec (server_segs t) hostport CreateEphemeral None m) ts (lookup z1)"
    by auto
  with z1 show ?case by (simp add: server_path_segs)
qed

theorem PublishQServer_refines_witness:
  "\<exists>z'. PublishQServer ''h:1'' [''A'', ''B''] zk_init = (None, z')
     \<and> lookup z' ''/kiteq/server/B/h:1'' = Some \<lparr>zdata = [], zmode = CreateEphemeral, zversion = 0\<rparr>
     \<and> lookup z' ''/kiteq/server'' = Some empty_dir"
proof -
  have h: "faults zk_init = []" "good_seg ''h:1''" "\<forall>t \<in> set [''A'', ''B'']. good_seg t"
    "dir_ok (lookup zk_init) ''/''"
    "\<forall>t \<in> set [''A'', ''B'']. list_all (persistent_or_absent (lookup zk_init)) (prefix_paths [] (server_segs t))"
    by (simp_all add: init_facts server_segs_def abs_path_def)
  from PublishQServer_refines [OF h] obtain z' where run: "PublishQServer ''h:1'' [''A'', ''B''] zk_init = (None, z')"
    and l: "lookup z' = fold (\<lambda>t m. register_spec (server_segs t) ''h:1'' CreateEphemeral None m) [''A'', ''B''] (lookup zk_init)"
    by blast
  have "lookup z' ''/kiteq/server/B/h:1'' = Some \<lparr>zdata = [], zmode = CreateEphemeral, zversion = 0\<rparr>
     \<and> lookup z' ''/kiteq/server'' = Some empty_dir"
    unfolding l by (simp add: init_facts spec_eval server_segs_def)
  with run show ?thesis by blast
qed

text \<open>C6 (spec \<section>4.3, publisher presence). Under the same conditions, with a group id
  that is one segment, \<open>PublishTopics\<close> succeeds with the store of the abstract
  registrations of \<open>/kiteq/pub/{topic}/{groupId}/{hostport}\<close>, ephemeral, per topic.\<close>

theorem PublishTopics_refines:
  assumes "faults z = []" "good_seg groupId" "good_seg hostport" "\<forall>t \<in> set topics. good_seg t"
    "dir_ok (lookup z) ''/''"
    "\<forall>t \<in> set topics. list_all (persistent_or_absent (lookup z)) (prefix_paths [] (pub_segs t groupId))"
  shows "\<exists>z'. PublishTopics topics groupId hostport z = (None, z')
    \<and> lookup z' = fold (\<lambda>t m. register_spec (pub_segs t groupId) hostport CreateEphemeral None m) topics (lookup z)"
  using assms
proof (induction topics arbitrary: z)
  case Nil
  then show ?case by simp
next
  case (Cons t ts)
  have g: "\<forall>u \<in> set (pub_segs t groupId @ [hostport]). good_seg u"
    using Cons.prems(2-4) by (simp add: pub_segs_def)
  obtain z1 where z1: "registePath (abs_path (pub_segs t groupId)) hostport CreateEphemeral None z
      = (Inr (abs_path (pub_segs t groupId @ [hostport])), z1)"
    "lookup z1 = register_spec (pub_segs t groupId) hostport CreateEphemeral None (lookup z)"
    "faults z1 = []" "dir_ok (lookup z1) ''/''"
    using registePath_step [OF Cons.prems(1) _ g Cons.prems(5)] Cons.prems(6)
    by (auto simp: pub_segs_def)
  have "\<forall>t' \<in> set ts. list_all (persistent_or_absent (lookup z1)) (prefix_paths [] (pub_segs t' groupId))"
    unfolding z1(2) using Cons.prems(2,4,6)
    by (intro register_spec_keeps_all [OF g]) (auto simp: pub_segs_def)
  from Cons.IH [OF z1(3) Cons.prems(2,3) _ z1(4) this] Cons.prems(4) obtain z' where
    "PublishTopics ts groupId hostport z1 = (None, z')"
    "lookup z' = fold (\<lambda>t m. register_spec (pub_segs t groupId) hostport CreateEphemeral None m) ts (lookup z1)"
    by auto
  with z1 show ?case by (simp add: pub_path_segs)
qed

theorem PublishTopics_refines_witness:
  "\<exists>z'. PublishTopics [''A''] ''G'' ''h:1'' zk_init = (None, z')
     \<and> lookup z' ''/kiteq/pub/A/G/h:1'' = Some \<lparr>zdata = [], zmode = CreateEphemeral, zversion = 0\<rparr>"
proof -
  have h: "faults zk_init = []" "good_seg ''G''" "good_seg ''h:1''" "\<forall>t \<in> set [''A'']. good_seg t"
    "dir_ok (lookup zk_init) ''/''"
    "\<forall>t \<in> set [''A'']. list_all (persistent_or_absent (lookup zk_init)) (prefix_paths [] (pub_segs t ''G''))"
    by (simp_all add: init_facts pub_segs_def abs_path_def)
  from PublishTopics_refines [OF h] obtain z' where run: "PublishTopics [''A''] ''G'' ''h:1'' zk_init = (None, z')"
    and l: "lookup z' = fold (\<lambda>t m. register_spec (pub_segs t ''G'') ''h:1'' CreateEphemeral None m) [''A''] (lookup zk_init)"
    by blast
  have "lookup z' ''/kiteq/pub/A/G/h:1'' = Some \<lparr>zdata = [], zmode = CreateEphemeral, zversion = 0\<rparr>"
    unfolding l by (simp add: init_facts spec_eval pub_segs_def)
  with run show ?thesis by blast
qed

text \<open>C7 (spec \<section>4.4 and \<section>9, topic grouping). The grouping loop of
  \<open>PublishBindings\<close> maps each topic to exactly the bindings of that topic in input
  order, each with its \<open>GroupId\<close> set to the publishing group, maps topics with no
  binding to nothing, and holds each topic once.\<close>

theorem group_loop_groups:
  "map_of (group_loop groupId [] bs)
     = (\<lambda>t. if group_spec groupId bs t = [] then None else Some (group_spec groupId bs t))
   \<and> distinct (map fst (group_loop groupId [] bs))"
  by (simp add: fun_eq_iff group_loop_lookup group_loop_distinct)

text \<open>C8 (spec \<section>8.2, topic grouping correctness). Without faults and with a codec that
  encodes every group, \<open>PublishBindings\<close> succeeds; the leaf
  \<open>/kiteq/sub/{topic}/{groupId}-bind\<close> of each topic holds the encoding of that topic's
  group, and no node other than these leaves and their directories changes.\<close>

theorem PublishBindings_refines:
  assumes "faults z = []" "good_seg (bind_name groupId)" "\<forall>b \<in> set bs. good_seg (Topic b)"
    "dir_ok (lookup z) ''/''"
    "\<forall>b \<in> set bs. list_all (persistent_or_absent (lookup z)) (prefix_paths [] (sub_segs (Topic b)))"
    "\<forall>b \<in> set bs. \<not> isl (MarshalBinds cd (group_spec groupId bs (Topic b)))"
  shows "\<exists>z'. PublishBindings cd groupId bs z = (None, z')
    \<and> (\<forall>b \<in> set bs. map_option zdata (lookup z' (sub_path (Topic b) @ ''/'' @ bind_name groupId))
                    = Some (projr (MarshalBinds cd (group_spec groupId bs (Topic b)))))
    \<and> (\<forall>q. (\<forall>b \<in> set bs. q \<notin> set (prefix_paths [] (sub_segs (Topic b)))
                        \<and> q \<noteq> sub_path (Topic b) @ ''/'' @ bind_name groupId)
             \<longrightarrow> lookup z' q = lookup z q)"
proof -
  let ?G = "group_loop groupId [] bs"
  let ?c = "bind_name groupId"
  from PublishBindings_leaves [OF assms] obtain z' where
    z': "PublishBindings cd groupId bs z = (None, z')"
      "lookup z' = fold (\<lambda>(t, g) m. register_spec (sub_segs t) ?c CreatePersistent
                      (Some (projr (MarshalBinds cd g))) m) ?G (lookup z)"
    and data: "\<forall>b \<in> set bs. map_option zdata (lookup z' (sub_path (Topic b) @ ''/'' @ ?c))
                    = Some (projr (MarshalBinds cd (group_spec groupId bs (Topic b))))"
    by blast
  have frame: "lookup z' q = lookup z q"
    if q: "\<forall>b \<in> set bs. q \<notin> set (prefix_paths [] (sub_segs (Topic b)))
                        \<and> q \<noteq> sub_path (Topic b) @ ''/'' @ ?c" for q
  proof -
    have "\<forall>(t', g') \<in> set ?G. q \<notin> set (prefix_paths [] (sub_segs t')) \<and> q \<noteq> abs_path (sub_segs t' @ [?c])"
      using q group_loop_member sub_leaf_path [of _ ?c] by fastforce
    then show ?thesis using z'(2) by (simp add: fold_register_frame)
  qed
  show ?thesis using z'(1) data frame by auto
qed

theorem PublishBindings_refines_witness:
  "\<exists>z'. PublishBindings
      \<lparr>MarshalBinds = (\<lambda>bs. Inr (concat (map MessageType bs))), UmarshalBinds = (\<lambda>d. Inl ''unused'')\<rparr>
      ''G''
      [\<lparr>GroupId = [], Topic = ''A'', MessageType = ''rule1'', BindType = Direct, Persistent = True\<rparr>,
       \<lparr>GroupId = [], Topic = ''A'', MessageType = ''rule2'', BindType = Direct, Persistent = True\<rparr>,
       \<lparr>GroupId = [], Topic = ''B'', MessageType = ''rule3'', BindType = Direct, Persistent = True\<rparr>]
      zk_init = (None, z')
    \<and> map_option zdata (lookup z' ''/kiteq/sub/A/G-bind'') = Some ''rule1rule2''
    \<and> map_option zdata (lookup z' ''/kiteq/sub/B/G-bind'') = Some ''rule3''
    \<and> lookup z' ''/kiteq/pub'' = None"
proof -
  let ?cd = "\<lparr>MarshalBinds = (\<lambda>bs. Inr (concat (map MessageType bs))), UmarshalBinds = (\<lambda>d. Inl ''unused'')\<rparr>
    :: codec"
  let ?bs = "[\<lparr>GroupId = [], Topic = ''A'', MessageType = ''rule1'', BindType = Direct, Persistent = True\<rparr>,
       \<lparr>GroupId = [], Topic = ''A'', MessageType = ''rule2'', BindType = Direct, Persistent = True\<rparr>,
       \<lparr>GroupId = [], Topic = ''B'', MessageType = ''rule3'', BindType = Direct, Persistent = True\<rparr>]"
  have h: "faults zk_init = []" "good_seg (bind_name ''G'')" "\<forall>b \<in> set ?bs. good_seg (Topic b)"
    "dir_ok (lookup zk_init) ''/''"
    "\<forall>b \<in> set ?bs. list_all (persistent_or_absent (lookup zk_init)) (prefix_paths [] (sub_segs (Topic b)))"
    "\<forall>b \<in> set ?bs. \<not> isl (MarshalBinds ?cd (group_spec ''G'' ?bs (Topic b)))"
    by (simp_all add: init_facts sub_segs_def abs_path_def bind_name_def)
  from PublishBindings_refines [OF h] obtain z' where run: "PublishBindings ?cd ''G'' ?bs zk_init = (None, z')"
    and d: "\<forall>b \<in> set ?bs. map_option zdata (lookup z' (sub_path (Topic b) @ ''/'' @ bind_name ''G''))
                    = Some (projr (MarshalBinds ?cd (group_spec ''G'' ?bs (Topic b))))"
    and f: "\<forall>q. (\<forall>b \<in> set ?bs. q \<notin> set (prefix_paths [] (sub_segs (Topic b)))
                        \<and> q \<noteq> sub_path (Topic b) @ ''/'' @ bind_name ''G'')
             \<longrightarrow> lookup z' q = lookup zk_init q"
    by blast
  have "map_option zdata (lookup z' ''/kiteq/sub/A/G-bind'') = Some ''rule1rule2''
    \<and> map_option zdata (lookup z' ''/kiteq/sub/B/G-bind'') = Some ''rule3''"
    using d by (simp add: group_spec_def sub_path_def namespace_defs bind_name_def)
  moreover have "lookup z' ''/kiteq/pub'' = None"
    using f [rule_format, of "''/kiteq/pub''"]
    by (simp add: init_facts sub_segs_def abs_path_def sub_path_def namespace_defs bind_name_def)
  ultimately show ?thesis using run by blast
qed

lemma publish_groups_append:
  "publish_groups cd groupId (G1 @ G2) z =
     (case publish_groups cd groupId G1 z of (None, z1) \<Rightarrow> publish_groups cd groupId G2 z1 | r \<Rightarrow> r)"
  by (induction cd groupId G1 z rule: publish_groups.induct) (auto split: sum.split prod.split option.split)

text \<open>C9 (spec \<section>4.4, serialization failure). Let \<open>G1 @ (t, g) # G2\<close> be the order in
  which Go's \<open>range\<close> visits the grouped topics, whatever it is, with the codec failing
  on topic \<open>t\<close>'s group and the groups of \<open>G1\<close> encodable. Without faults, the loop
  returns the codec's error, and the nodes are exactly those of the registrations of
  \<open>G1\<close>: the topics visited before \<open>t\<close> are written, \<open>t\<close> and the topics after it are
  not. The call commits partially, and which topics are written depends on the order.\<close>

theorem PublishBindings_partial_commit:
  assumes "faults z = []" "good_seg (bind_name groupId)" "dir_ok (lookup z) ''/''"
    "\<forall>(t', g') \<in> set G1. good_seg t' \<and> \<not> isl (MarshalBinds cd g')"
    "\<forall>(t', g') \<in> set G1. list_all (persistent_or_absent (lookup z)) (prefix_paths [] (sub_segs t'))"
    "MarshalBinds cd g = Inl err"
  shows "\<exists>z'. publish_groups cd groupId (G1 @ (t, g) # G2) z = (Some (MarshalErr err), z')
    \<and> lookup z' = fold (\<lambda>(t, g) m. register_spec (sub_segs t) (bind_name groupId) CreatePersistent
                           (Some (projr (MarshalBinds cd g))) m) G1 (lookup z)"
proof -
  from publish_groups_refines [OF assms(1,2,4,3,5)] obtain z1 where
    z1: "publish_groups cd groupId G1 z = (None, z1)"
    "lookup z1 = fold (\<lambda>(t, g) m. register_spec (sub_segs t) (bind_name groupId) CreatePersistent
                         (Some (projr (MarshalBinds cd g))) m) G1 (lookup z)"
    by blast
  then show ?thesis using assms(6) by (simp add: publish_groups_append)
qed

theorem PublishBindings_partial_commit_witness:
  "let cd = \<lparr>MarshalBinds = (\<lambda>bs. if list_ex (\<lambda>b. Topic b = ''B'') bs then Inl ''unsupported''
                                  else Inr (concat (map MessageType bs))),
            UmarshalBinds = (\<lambda>d. Inl ''unused'')\<rparr>;
       bA = \<lparr>GroupId = ''G'', Topic = ''A'', MessageType = ''r1'', BindType = Direct, Persistent = True\<rparr>;
       bB = \<lparr>GroupId = ''G'', Topic = ''B'', MessageType = ''r2'', BindType = Direct, Persistent = True\<rparr>
   in MarshalBinds cd [bB] = Inl ''unsupported''
    \<and> (\<exists>z'. publish_groups cd ''G'' [(''A'', [bA]), (''B'', [bB])] zk_init = (Some (MarshalErr ''unsupported''), z')
         \<and> map_option zdata (lookup z' ''/kiteq/sub/A/G-bind'') = Some ''r1''
         \<and> lookup z' ''/kiteq/sub/B/G-bind'' = None)"
proof -
  define cd where "cd = \<lparr>MarshalBinds = (\<lambda>bs. if list_ex (\<lambda>b. Topic b = ''B'') bs then Inl ''unsupported''
                                  else Inr (concat (map MessageType bs))),
            UmarshalBinds = (\<lambda>d::bytes. Inl ''unused'' :: string + binding list)\<rparr>"
  define bA where "bA = \<lparr>GroupId = ''G'', Topic = ''A'', MessageType = ''r1'', BindType = Direct, Persistent = True\<rparr>"
  define bB where "bB = \<lparr>GroupId = ''G'', Topic = ''B'', MessageType = ''r2'', BindType = Direct, Persistent = True\<rparr>"
  have h: "faults zk_init = []" "good_seg (bind_name ''G'')" "dir_ok (lookup zk_init) ''/''"
    "\<forall>(t', g') \<in> set [(''A'', [bA])]. good_seg t' \<and> \<not> isl (MarshalBinds cd g')"
    "\<forall>(t', g') \<in> set [(''A'', [bA])]. list_all (persistent_or_absent (lookup zk_init)) (prefix_paths [] (sub_segs t'))"
    "MarshalBinds cd [bB] = Inl ''unsupported''"
    by (simp_all add: init_facts bind_name_def sub_segs_def abs_path_def cd_def bA_def bB_def)
  from PublishBindings_partial_commit [OF h, of "''B''" "[]"] obtain z' where
    r: "publish_groups cd ''G'' [(''A'', [bA]), (''B'', [bB])] zk_init = (Some (MarshalErr ''unsupported''), z')"
    and l: "lookup z' = fold (\<lambda>(t, g) m. register_spec (sub_segs t) (bind_name ''G'') CreatePersistent
                           (Some (projr (MarshalBinds cd g))) m) [(''A'', [bA])] (lookup zk_init)"
    by auto
  have "map_option zdata (lookup z' ''/kiteq/sub/A/G-bind'') = Some ''r1''
      \<and> lookup z' ''/kiteq/sub/B/G-bind'' = None"
    unfolding l by (simp add: init_facts spec_eval sub_segs_def bind_name_def cd_def bA_def)
  with r h(6) show ?thesis unfolding Let_def cd_def [symmetric] bA_def [symmetric] bB_def [symmetric] by blast
qed

text \<open>C21 (spec \<section>4.3 and \<section>7, first error stops a batch). Both presence
  publishers over a concatenated topic list run the first part and, only when it
  succeeds, the second: after an error on one topic the remaining topics are not
  attempted.\<close>

theorem presence_stops_at_error:
  "PublishQServer h (ts1 @ ts2) z =
     (case PublishQServer h ts1 z of (None, z1) \<Rightarrow> PublishQServer h ts2 z1 | (Some err, z1) \<Rightarrow> (Some err, z1))
   \<and> PublishTopics (ts1 @ ts2) g h z =
     (case PublishTopics ts1 g h z of (None, z1) \<Rightarrow> PublishTopics ts2 g h z1 | (Some err, z1) \<Rightarrow> (Some err, z1))"
proof
  show "PublishQServer h (ts1 @ ts2) z =
     (case PublishQServer h ts1 z of (None, z1) \<Rightarrow> PublishQServer h ts2 z1 | (Some err, z1) \<Rightarrow> (Some err, z1))"
    by (induction ts1 arbitrary: z) (auto split: prod.split sum.split option.split)
  show "PublishTopics (ts1 @ ts2) g h z =
     (case PublishTopics ts1 g h z of (None, z1) \<Rightarrow> PublishTopics ts2 g h z1 | (Some err, z1) \<Rightarrow> (Some err, z1))"
    by (induction ts1 arbitrary: z) (auto split: prod.split sum.split option.split)
qed

text \<open>C27 (spec \<section>4.4, "stable insertion order not required"). Go's \<open>range\<close> over
  the map \<open>groupBind\<close> visits the topics in an unspecified order. Under the conditions
  of C8, running the per-topic loop over any reordering of the groups succeeds and
  leaves exactly the same nodes as the first-insertion order the model uses: a
  successful \<open>PublishBindings\<close> does not depend on the map's iteration order.\<close>

theorem PublishBindings_any_order:
  assumes "faults z = []" "good_seg (bind_name groupId)" "\<forall>b \<in> set bs. good_seg (Topic b)"
    "dir_ok (lookup z) ''/''"
    "\<forall>b \<in> set bs. list_all (persistent_or_absent (lookup z)) (prefix_paths [] (sub_segs (Topic b)))"
    "\<forall>b \<in> set bs. \<not> isl (MarshalBinds cd (group_spec groupId bs (Topic b)))"
    "mset G' = mset (group_loop groupId [] bs)"
  shows "\<exists>z1 z2. PublishBindings cd groupId bs z = (None, z1) \<and> publish_groups cd groupId G' z = (None, z2)
    \<and> lookup z2 = lookup z1"
proof -
  let ?G = "group_loop groupId [] bs"
  let ?F = "\<lambda>(t, g) m. register_spec (sub_segs t) (bind_name groupId) CreatePersistent (Some (projr (MarshalBinds cd g))) m"
  from PublishBindings_leaves [OF assms(1-6)] obtain z1 where
    z1: "PublishBindings cd groupId bs z = (None, z1)" "lookup z1 = fold ?F ?G (lookup z)" by blast
  have s: "set G' = set ?G" using mset_eq_setD [OF assms(7)] .
  have hyps: "\<forall>(t, g) \<in> set G'. good_seg t \<and> \<not> isl (MarshalBinds cd g)"
    "\<forall>(t, g) \<in> set G'. list_all (persistent_or_absent (lookup z)) (prefix_paths [] (sub_segs t))"
    unfolding s using assms(3,5,6) group_loop_member by fastforce+
  from publish_groups_refines [OF assms(1,2) hyps(1) assms(4) hyps(2)] obtain z2 where
    z2: "publish_groups cd groupId G' z = (None, z2)" "lookup z2 = fold ?F G' (lookup z)" by blast
  have "fold ?F G' (lookup z) = fold ?F ?G (lookup z)"
  proof (rule fold_register_perm [OF assms(2) _ _ assms(7)])
    show "distinct (map fst ?G)" by (rule group_loop_distinct) simp
    show "\<forall>(t, g) \<in> set ?G. good_seg t" using hyps(1) s by blast
  qed
  with z1 z2 show ?thesis by auto
qed


theorem PublishBindings_any_order_witness:
  "let cd = \<lparr>MarshalBinds = (\<lambda>bs. Inr (concat (map MessageType bs))), UmarshalBinds = (\<lambda>d. Inl ''unused'')\<rparr>;
       bs = [\<lparr>GroupId = [], Topic = ''A'', MessageType = ''rule1'', BindType = Direct, Persistent = True\<rparr>,
             \<lparr>GroupId = [], Topic = ''B'', MessageType = ''rule2'', BindType = Direct, Persistent = True\<rparr>]
   in mset (rev (group_loop ''G'' [] bs)) = mset (group_loop ''G'' [] bs)
    \<and> map fst (rev (group_loop ''G'' [] bs)) = [''B'', ''A'']
    \<and> (\<exists>z1 z2. PublishBindings cd ''G'' bs zk_init = (None, z1)
        \<and> publish_groups cd ''G'' (rev (group_loop ''G'' [] bs)) zk_init = (None, z2) \<and> lookup z2 = lookup z1)"
proof -
  define cd where "cd = \<lparr>MarshalBinds = (\<lambda>bs. Inr (concat (map MessageType bs))), UmarshalBinds = (\<lambda>d::bytes. Inl ''unused'')\<rparr>"
  define bs where "bs = [\<lparr>GroupId = [], Topic = ''A'', MessageType = ''rule1'', BindType = Direct, Persistent = True\<rparr>,
             \<lparr>GroupId = [], Topic = ''B'', MessageType = ''rule2'', BindType = Direct, Persistent = True\<rparr>]"
  have h: "faults zk_init = []" "good_seg (bind_name ''G'')" "\<forall>b \<in> set bs. good_seg (Topic b)"
    "dir_ok (lookup zk_init) ''/''"
    "\<forall>b \<in> set bs. list_all (persistent_or_absent (lookup zk_init)) (prefix_paths [] (sub_segs (Topic b)))"
    "\<forall>b \<in> set bs. \<not> isl (MarshalBinds cd (group_spec ''G'' bs (Topic b)))"
    "mset (rev (group_loop ''G'' [] bs)) = mset (group_loop ''G'' [] bs)"
    by (simp_all add: init_facts sub_segs_def abs_path_def bind_name_def bs_def cd_def)
  have o: "map fst (rev (group_loop ''G'' [] bs)) = [''B'', ''A'']" by (simp add: bs_def)
  from PublishBindings_any_order [OF h] h(7) o show ?thesis
    unfolding Let_def cd_def [symmetric] bs_def [symmetric] by blast
qed

end
