(* ===== verification/Frame.thy ===== *)
theory Frame
  imports Discovery Publishers
begin

text \<open>
  Properties of the service state that every operation of the binding package
  preserves because it only ever reaches the service through the fault oracle, a
  watch registration, a sleep, a successful \<open>Create\<close> (entered in the session's table
  when ephemeral) and a successful \<open>Set\<close>. \<open>client_inv P\<close>
  says that these primitives preserve \<open>P\<close>; the lemmas lift it through the registrar,
  the publishers, the reads, the queries and the dispatch loop. Instances: the channel
  buffers, the absence of faults, the set of existing nodes, and \<open>zk_wf\<close>, the
  well-formedness of the node tree of spec \<section>2 (every node's parent is a persistent
  node), which the other sessions' writes also keep. The last lemmas locate the nodes a
  successful \<open>PublishQServer\<close> leaves and the names \<open>Children\<close> reports.
\<close>

section \<open>Preservation by the client code\<close>

definition client_inv :: "(zk \<Rightarrow> bool) \<Rightarrow> bool" where
  "client_inv P \<longleftrightarrow> (\<forall>z. P z \<longrightarrow> P (snd (fault_step z)))
     \<and> (\<forall>p k w z. P z \<longrightarrow> P (add_watch p k w z)) \<and> (\<forall>ms z. P z \<longrightarrow> P (sleep ms z))
     \<and> (\<forall>p d m z z'. P z \<longrightarrow> srv_create p d m z = Inr z' \<longrightarrow> P (own_create m p z'))
     \<and> (\<forall>p d v z z'. P z \<longrightarrow> srv_set p d v z = Inr z' \<longrightarrow> P z')"

section \<open>Well-formed node trees\<close>

text \<open>Spec \<section>2: the node tree is a map with the root present and persistent, and
  every other node has a well-formed path whose parent is a persistent node. By
  induction on the path, every ancestor of a node is then a persistent node.\<close>

definition zk_wf :: "zk \<Rightarrow> bool" where
  "zk_wf z \<longleftrightarrow> distinct (map fst (nodes z)) \<and> dir_ok (lookup z) ''/''
     \<and> list_all (\<lambda>q. q = ''/'' \<or> valid_path q \<and> dir_ok (lookup z) (parent_path q)) (map fst (nodes z))"

text \<open>The ancestors of a path, nearest first: its parent, the parent's parent, up to
  the root.\<close>

function ancestors :: "path \<Rightarrow> path list" where
  "ancestors q = (if q = ''/'' then [] else parent_path q # ancestors (parent_path q))"
  by pat_completeness auto
termination
proof (relation "measure (\<lambda>q. if q = ''/'' then 0 else length (split_on slash q))")
  fix q :: path
  assume q: "q \<noteq> ''/''"
  let ?segs = "split_on slash q"
  have "length (split_on slash (parent_path q)) < length ?segs"
    if "parent_path q \<noteq> ''/''"
  proof -
    have l: "2 < length ?segs" and p: "parent_path q = join_on slash (butlast ?segs)"
      using that by (auto simp: parent_path_def Let_def split: if_splits)
    have "\<forall>w \<in> set (butlast ?segs). slash \<notin> set w"
      using split_on_pieces in_set_butlastD by metis
    moreover have "butlast ?segs \<noteq> []" using l by (cases ?segs) auto
    ultimately show ?thesis using l p split_join_on [of "butlast ?segs" slash] by simp
  qed
  then show "(parent_path q, q) \<in> measure (\<lambda>q. if q = ''/'' then 0 else length (split_on slash q))"
    using q split_on_not_Nil [of slash q] by (auto simp: length_greater_0_conv)
qed auto

declare ancestors.simps [simp del]

section \<open>Lemmas: lifting a preserved property\<close>

lemma client_invD:
  assumes "client_inv P" "P z"
  shows "fault_step z = (f, z1) \<Longrightarrow> P z1" "P (add_watch p k w z)" "P (sleep ms z)"
    "srv_create p d m z = Inr z' \<Longrightarrow> P (own_create m p z')" "srv_set p d v z = Inr z' \<Longrightarrow> P z'"
  using assms unfolding client_inv_def by (metis snd_conv)+

lemma client_inv_calls:
  assumes "client_inv P" "P z"
  shows "P (snd (zk_exists p w z))" "P (snd (zk_get p w z))" "P (snd (zk_children p w z))"
    "P (snd (zk_create p d m z))" "P (snd (zk_set p d v z))"
proof -
  obtain f z1 where fs: "fault_step z = (f, z1)" by fastforce
  have z1: "P z1" using client_invD(1) [OF assms fs] .
  note D = client_invD [OF assms(1) z1]
  show "P (snd (zk_exists p w z))" "P (snd (zk_get p w z))" "P (snd (zk_children p w z))"
    using fs z1 D(2) by (simp_all add: zk_exists_def zk_get_def zk_children_def split: option.split)
  show "P (snd (zk_create p d m z))" "P (snd (zk_set p d v z))"
    using fs z1 D(4,5) by (auto simp: zk_create_def zk_set_def split: sum.split)
qed

lemma client_inv_confirm_poll: "client_inv P \<Longrightarrow> P z \<Longrightarrow> P (confirm_poll p i z)"
proof (induction p i z rule: confirm_poll.induct)
  case (1 tmppath i z)
  obtain r z1 where ex: "zk_exists tmppath None z = (r, z1)" by fastforce
  have z1: "P z1" using client_inv_calls(1) [OF 1(2,3), of tmppath None] ex by simp
  have "P (sleep (i * 100) z1)" using client_invD(3) [OF 1(2) z1] .
  with 1(1) [OF _ refl ex [symmetric] _ 1(2)] 1(3) z1 ex show ?case
    by (subst confirm_poll.simps) (simp add: Let_def)
qed

lemma client_inv_innerCreatePath:
  assumes "client_inv P" "P z"
  shows "P (snd (innerCreatePath p d ct z))"
proof -
  obtain r z1 where ex: "zk_exists p None z = (r, z1)" by fastforce
  have z1: "P z1" using client_inv_calls(1) [OF assms, of p None] ex by simp
  note C = client_inv_calls(4,5) [OF assms(1) z1]
  show ?thesis using ex z1 C(1) [of p _ ct] C(2) [of p _ "-1"] client_inv_confirm_poll [OF assms(1)]
    by (auto simp: innerCreatePath_def Let_def split_def split: sum.split option.split)
qed

lemma client_inv_traverse_loop: "client_inv P \<Longrightarrow> P z \<Longrightarrow> P (snd (traverse_loop p vs z))"
proof (induction p vs z rule: traverse_loop.induct)
  case (3 tmppath v w vs z)
  obtain e z1 where ic: "innerCreatePath (tmppath @ v) None CreatePersistent z = (e, z1)" by fastforce
  have "P z1" using client_inv_innerCreatePath [OF 3(2,3), of "tmppath @ v" None CreatePersistent] ic by simp
  with 3(1) [OF ic [symmetric] _ 3(2)] ic show ?case by (cases e) simp_all
qed simp_all

lemma client_inv_registePath: "client_inv P \<Longrightarrow> P z \<Longrightarrow> P (snd (registePath p c ct d z))"
  using client_inv_traverse_loop [of P z] client_inv_innerCreatePath [of P]
  by (auto simp: registePath_def traverseCreatePath_def split_def split: option.split sum.split)

lemma client_inv_publishers:
  assumes "client_inv P" "P z"
  shows "P (snd (PublishQServer h ts z))" "P (snd (PublishTopics ts g h z))"
    "P (snd (PublishBindings cd g bs z))"
proof -
  note R = client_inv_registePath [OF assms(1)]
  show "P (snd (PublishQServer h ts z))" using assms(2)
    by (induction ts arbitrary: z) (auto simp: split_def dest: R split: sum.split option.split)
  show "P (snd (PublishTopics ts g h z))" using assms(2)
    by (induction ts arbitrary: z) (auto simp: split_def dest: R split: sum.split option.split)
  have "P (snd (publish_groups cd g gs z))" for gs using assms(2)
  proof (induction gs arbitrary: z)
    case (Cons a gs)
    obtain topic binds where a: "a = (topic, binds)" by fastforce
    show ?case
    proof (cases "MarshalBinds cd binds")
      case (Inr d)
      obtain r z1 where rp: "registePath (sub_path topic) (bind_name g) CreatePersistent (Some d) z = (r, z1)"
        by fastforce
      have "P z1" using R [OF Cons.prems, of "sub_path topic" "bind_name g" CreatePersistent "Some d"] rp by simp
      with Cons.IH [of z1] a Inr rp show ?thesis by (cases r) simp_all
    qed (simp add: a Cons.prems)
  qed simp
  then show "P (snd (PublishBindings cd g bs z))" by (simp add: PublishBindings_def)
qed

lemma client_inv_reads:
  assumes "client_inv P" "P z"
  shows "P (snd (getBindData cd p c z))" "P (snd (bind_loop cd p c hps gs z))"
    "P (snd (handle_event cd p c e z))"
proof -
  note C = client_inv_calls [OF assms(1)]
  have gb: "P z0 \<Longrightarrow> P (snd (getBindData cd q c z0))" for z0 q
    using C(2) [of z0 q "Some c"]
    by (auto simp: getBindData_def split: prod.split sum.split)
  show "P (snd (getBindData cd p c z))" using gb [OF assms(2)] .
  show "P (snd (bind_loop cd p c hps gs z))" using assms(2)
  proof (induction gs arbitrary: hps z)
    case (Cons g gs)
    then show ?case using gb [OF Cons.prems, of "p @ ''/'' @ g"]
      by (auto split: prod.split sum.split)
  qed simp
  show "P (snd (handle_event cd p c e z))"
    using assms(2) C(1,3) [OF assms(2)] gb [OF assms(2), of p]
    by (auto simp: handle_event_def split_def split: event_type.split sum.split)
qed

section \<open>Lemmas: well-formed node trees\<close>

lemma zk_wf_iff:
  "zk_wf z \<longleftrightarrow> distinct (map fst (nodes z)) \<and> dir_ok (lookup z) ''/''
     \<and> (\<forall>q \<in> fst ` set (nodes z). q = ''/'' \<or> valid_path q \<and> dir_ok (lookup z) (parent_path q))"
  by (simp add: zk_wf_def list_all_iff)

lemma lookup_map_of: "lookup z = map_of (nodes z)"
  by (rule ext) (simp add: lookup_def)

lemma zk_wf_nodes: "nodes z' = nodes z \<Longrightarrow> zk_wf z' = zk_wf z"
  by (simp add: zk_wf_def lookup_map_of)

lemma dir_ok_upd_absent: "dir_ok m q \<Longrightarrow> m p = None \<Longrightarrow> dir_ok (m(p \<mapsto> n)) q"
  by (auto simp: dir_ok_def split: option.splits)

lemma dir_ok_upd_mode:
  "dir_ok m q \<Longrightarrow> m p = Some n \<Longrightarrow> zmode n' = zmode n \<Longrightarrow> dir_ok (m(p \<mapsto> n')) q"
  by (auto simp: dir_ok_def split: option.splits)

lemma dir_ok_del: "dir_ok m q \<Longrightarrow> q \<noteq> p \<Longrightarrow> dir_ok (m(p := None)) q"
  by (simp add: dir_ok_def)

lemma children_of_Nil:
  "children_of z p = [] \<Longrightarrow> (q, n) \<in> set (nodes z) \<Longrightarrow> q \<noteq> ''/'' \<Longrightarrow> parent_path q \<noteq> p"
  by (auto simp: children_of_def split: if_splits)

lemma zk_wf_srv_create:
  assumes wf: "zk_wf z" and c: "srv_create p d m z = Inr z'"
  shows "zk_wf z'"
proof -
  obtain pn where v: "valid_path p" "p \<noteq> ''/''" "lookup z (parent_path p) = Some pn"
    "zmode pn \<noteq> CreateEphemeral" "lookup z p = None"
    using c by (auto simp: srv_create_def split: if_splits option.splits)
  let ?n = "\<lparr>zdata = d, zmode = m, zversion = 0\<rparr>"
  have "z' = fire (parent_path p) [WatchChild] EvChild
      (fire p [WatchExist] EvCreated (z\<lparr>nodes := AList.update p ?n (nodes z)\<rparr>))"
    using c v by (simp add: srv_create_def)
  then have nz: "nodes z' = AList.update p ?n (nodes z)" by simp
  have lz: "lookup z' = (lookup z)(p \<mapsto> ?n)"
    by (simp add: lookup_map_of nz update_conv')
  have up: "dir_ok (lookup z) q \<Longrightarrow> dir_ok (lookup z') q" for q
    using dir_ok_upd_absent [of "lookup z" q p ?n] v(5) lz by simp
  have "dir_ok (lookup z) (parent_path p)" using v(3,4) by (cases "zmode pn") (simp_all add: dir_ok_def)
  then show ?thesis using wf v(1) up
    by (auto simp: zk_wf_iff nz distinct_update dom_update)
qed

lemma zk_wf_srv_set:
  assumes wf: "zk_wf z" and c: "srv_set p d v z = Inr z'"
  shows "zk_wf z'"
proof -
  obtain n where n: "lookup z p = Some n"
    and nz: "nodes z' = AList.update p (n\<lparr>zdata := d, zversion := Suc (zversion n)\<rparr>) (nodes z)"
    using c by (auto simp: srv_set_def split: if_splits option.splits)
  have lz: "lookup z' = (lookup z)(p \<mapsto> n\<lparr>zdata := d, zversion := Suc (zversion n)\<rparr>)"
    by (simp add: lookup_map_of nz update_conv')
  have up: "dir_ok (lookup z) q \<Longrightarrow> dir_ok (lookup z') q" for q
    using dir_ok_upd_mode [of "lookup z" q p n] n lz by simp
  have "p \<in> fst ` set (nodes z)" using n map_of_SomeD [of "nodes z" p n] by (force simp: lookup_def)
  then show ?thesis using wf up
    by (auto simp: zk_wf_iff nz distinct_update dom_update insert_absorb)
qed

lemma zk_wf_srv_delete:
  assumes wf: "zk_wf z" and c: "srv_delete p z = Inr z'"
  shows "zk_wf z'"
proof -
  have v: "p \<noteq> ''/''" "children_of z p = []" and nz: "nodes z' = AList.delete p (nodes z)"
    using c by (auto simp: srv_delete_def split: if_splits)
  have lz: "lookup z' = (lookup z)(p := None)"
    by (simp add: lookup_map_of nz delete_conv')
  have par: "(q, k) \<in> set (nodes z') \<Longrightarrow> q \<noteq> ''/'' \<Longrightarrow> parent_path q \<noteq> p \<and> (q, k) \<in> set (nodes z)" for q k
    using children_of_Nil [OF v(2)] by (auto simp: nz AList.delete_eq)
  have "q = ''/'' \<or> valid_path q \<and> dir_ok (lookup z') (parent_path q)"
    if q: "q \<in> fst ` set (nodes z')" for q
  proof -
    obtain k where "(q, k) \<in> set (nodes z')" using q by force
    with par wf show ?thesis unfolding zk_wf_iff lz by (force intro: dir_ok_del)
  qed
  then show ?thesis using wf v(1) unfolding zk_wf_iff lz by (simp add: nz distinct_delete dir_ok_del)
qed

lemma zk_wf_node_valid: "zk_wf z \<Longrightarrow> lookup z q \<noteq> None \<Longrightarrow> q = ''/'' \<or> valid_path q"
  by (auto simp: zk_wf_iff lookup_def dest!: map_of_SomeD intro: rev_image_eqI)

lemma ancestors_dir_ok:
  "zk_wf z \<Longrightarrow> lookup z q \<noteq> None \<Longrightarrow> list_all (dir_ok (lookup z)) (ancestors q)"
proof (induction q rule: ancestors.induct)
  case (1 q)
  show ?case
  proof (cases "q = ''/''")
    case True
    then show ?thesis by (subst ancestors.simps) simp
  next
    case False
    have "q \<in> fst ` set (nodes z)"
      using 1(3) by (auto simp: lookup_def dest!: map_of_SomeD intro: rev_image_eqI)
    with 1(2) False have d: "dir_ok (lookup z) (parent_path q)" by (auto simp: zk_wf_iff)
    then have "lookup z (parent_path q) \<noteq> None" by (rule dir_ok_present)
    with 1(1) [OF False 1(2)] d False show ?thesis by (subst ancestors.simps) simp
  qed
qed

lemma client_inv_zk_wf: "client_inv zk_wf"
  unfolding client_inv_def
proof (intro conjI allI impI)
  fix z :: zk and p k w ms
  assume wf: "zk_wf z"
  have "nodes (snd (fault_step z)) = nodes z" by (simp add: fault_step_def split: list.split)
  then show "zk_wf (snd (fault_step z))" using zk_wf_nodes wf by blast
  show "zk_wf (add_watch p k w z)" using zk_wf_nodes [of "add_watch p k w z" z] wf by simp
  show "zk_wf (sleep ms z)" using zk_wf_nodes [of "sleep ms z" z] wf by (simp add: sleep_def)
  fix m d and q :: path and z' :: zk
  assume "srv_create q d m z = Inr z'"
  then have "zk_wf z'" using zk_wf_srv_create [OF wf] by blast
  then show "zk_wf (own_create m q z')" using zk_wf_nodes [of "own_create m q z'" z'] by simp
qed (fact zk_wf_srv_set)


lemma client_inv_queries:
  assumes "client_inv P" "P (zs s)"
  shows "GetQServerAndWatch topic nw s = (r, s') \<Longrightarrow> P (zs s')"
    "GetBindAndWatch cd topic nw s = (r', s') \<Longrightarrow> P (zs s')"
proof -
  note C = client_inv_calls [OF assms(1)]
  have e: "P (snd (zk_exists p w (zs s)))" and
    c: "P (snd (zk_children p w' (snd (zk_exists p w (zs s)))))" for p w w'
    using C(1) [OF assms(2)] C(3) [OF C(1) [OF assms(2)]] by blast+
  show "GetQServerAndWatch topic nw s = (r, s') \<Longrightarrow> P (zs s')"
    using e c by (auto simp: GetQServerAndWatch_def Let_def split_def split: sum.splits if_splits)
  show "GetBindAndWatch cd topic nw s = (r', s') \<Longrightarrow> P (zs s')"
    using e c client_inv_reads(2) [OF assms(1) c]
    by (auto simp: GetBindAndWatch_def Let_def split_def split: sum.splits if_splits)
qed

lemma client_inv_run_task:
  assumes "client_inv P" "P (zs s)" "\<And>z f. P z \<Longrightarrow> P (z\<lparr>chans := f\<rparr>)"
    "run_task cd i s = Some s'"
  shows "P (zs s')"
  using assms(4) client_inv_reads(3) [OF assms(1) assms(3) [OF assms(2)]]
  by (auto simp: run_task_def dispatch_step_def split_def split: if_splits list.splits)

section \<open>Lemmas: instances\<close>

text \<open>No operation but delivery and the dispatch loop touches a channel buffer.\<close>

lemma fire_chans [simp]: "chans (fire p ks t z) = chans z"
  by (simp add: fire_def)

lemma srv_write_chans:
  "srv_create p d m z = Inr z' \<Longrightarrow> chans z' = chans z"
  "srv_set p d v z = Inr z' \<Longrightarrow> chans z' = chans z"
  "srv_delete p z = Inr z' \<Longrightarrow> chans z' = chans z"
  by (auto simp: srv_create_def srv_set_def srv_delete_def split: if_splits option.splits)

lemma client_inv_no_faults: "client_inv (\<lambda>z. faults z = [])"
  by (auto simp: client_inv_def fault_step_def sleep_def srv_create_def srv_set_def
      split: list.split if_splits option.splits)



lemma client_inv_dom: "client_inv (\<lambda>z. D \<subseteq> dom (lookup z))"
proof -
  have c: "dom (lookup z) \<subseteq> dom (lookup z')" if "srv_create p d m z = Inr z'" for p d m z z'
    using srv_create_Inr(1) [OF that] by auto
  have s: "dom (lookup z) \<subseteq> dom (lookup z')" if "srv_set p d v z = Inr z'" for p d v z z'
    using srv_set_Inr(1) [OF that] by auto
  have f: "lookup (snd (fault_step z)) = lookup z" for z
    by (simp add: fault_step_def lookup_map_of split: list.split)
  show ?thesis unfolding client_inv_def
  proof (intro conjI allI impI)
    fix z :: zk and p k w ms d m v z'
    assume D: "D \<subseteq> dom (lookup z)"
    show "D \<subseteq> dom (lookup (snd (fault_step z)))" using D f by simp
    show "D \<subseteq> dom (lookup (add_watch p k w z))" using D by simp
    show "D \<subseteq> dom (lookup (sleep ms z))" using D by simp
    show "D \<subseteq> dom (lookup (own_create m p z'))" if "srv_create p d m z = Inr z'"
      using D c [OF that] by simp
    show "D \<subseteq> dom (lookup z')" if "srv_set p d v z = Inr z'" using D s [OF that] by blast
  qed
qed

lemma children_of_member:
  assumes "lookup z (p @ ''/'' @ h) \<noteq> None" "slash \<notin> set h" "2 \<le> length (split_on slash p)"
  shows "h \<in> set (children_of z p)"
proof -
  obtain n where n: "(p @ ''/'' @ h, n) \<in> set (nodes z)"
    using assms(1) by (auto simp: lookup_def dest: map_of_SomeD)
  have s: "split_on slash (p @ CHR ''/'' # h) = split_on slash p @ [h]"
    using split_on_snoc_sep [OF assms(2), of p] by (simp add: slash_def)
  have "p @ ''/'' @ h \<noteq> ''/''" using assms(3) by (cases p) auto
  moreover have "parent_path (p @ ''/'' @ h) = p"
    using assms(3) by (simp add: parent_path_def s)
  moreover have "last (split_on slash (p @ CHR ''/'' # h)) = h" using s by simp
  ultimately show ?thesis unfolding children_of_def set_concat set_map
    by (intro UN_I [OF imageI [OF n]]) (simp add: slash_def)
qed



lemma PublishQServer_present:
  assumes "PublishQServer h ts z = (None, z')" "t \<in> set ts"
  shows "lookup z' (server_path t) \<noteq> None \<and> lookup z' (server_path t @ ''/'' @ h) \<noteq> None"
  using assms
proof (induction ts arbitrary: z)
  case Nil
  then show ?case by simp
next
  case (Cons t0 ts)
  obtain r z1 where rp: "registePath (server_path t0) h CreateEphemeral None z = (r, z1)" by fastforce
  with Cons.prems(1) obtain fp where r: "r = Inr fp" and rest: "PublishQServer h ts z1 = (None, z')"
    by (cases r) auto
  have grow: "lookup z' q \<noteq> None" if "lookup z1 q \<noteq> None" for q
    using client_inv_publishers(1) [OF client_inv_dom [of "dom (lookup z1)"] order_refl, of h ts] rest that
    by auto
  show ?case
  proof (cases "t = t0")
    case True
    let ?L = "loop_paths ''/'' (tl (split_on slash (server_path t0)))"
    have "hd (server_path t0) = slash" "server_path t0 \<noteq> []"
      by (simp_all add: server_path_def namespace_defs slash_def)
    then have "server_path t0 \<in> set ?L"
      using loop_paths_last_abs last_in_set loop_paths_not_Nil by metis
    with registePath_frame [OF rp [unfolded r]] True grow show ?thesis by auto
  next
    case False
    with Cons.IH [OF rest] Cons.prems(2) show ?thesis by simp
  qed
qed

end
