(* ===== verification/Lifecycle.thy ===== *)
theory Lifecycle
  imports Frame
begin

text \<open>
  The end of the session of \<open>src/binding/zk_manager.go\<close>: \<open>ZKManager.Close\<close> and what
  a dispatch goroutine does once the session is closed. The server keeps the session's
  table of ephemeral nodes (\<open>ephemerals\<close>, filled by this session's successful ephemeral
  \<open>Create\<close>); \<open>eph_owned\<close> says that every entry is an existing ephemeral node, and the
  client code and the other sessions' writes preserve it. Under it and \<open>zk_wf\<close>, closing
  deletes exactly the owned ephemeral nodes (the presence leaves of spec \<section>5) and keeps
  every other node (the persistent bindings), because an ephemeral node has no children
  and each delete of the close succeeds. \<open>own_tracked m0\<close> says that every ephemeral node
  created since a state with node map \<open>m0\<close> is in the table; with the abstract
  registration of \<open>PublishQServer\<close> it places the broker's leaf there.
\<close>

section \<open>Closing the session\<close>

text \<open>Lines 348-350: \<open>Close\<close> closes the session handle.\<close>

definition Close :: "zk \<Rightarrow> zk" where
  "Close z = zk_close z"

text \<open>A closed handle answers every call with an error, and nothing stops the dispatch
  goroutines (spec \<section>9: no teardown). One iteration of a goroutine takes its next
  queued event and makes at most one call, which fails: it is \<open>run_task\<close> with the fault
  oracle set to fail that call, the oracle restored after.\<close>

definition run_task_closed :: "codec \<Rightarrow> nat \<Rightarrow> 'w sys \<Rightarrow> 'w sys option" where
  "run_task_closed cd i s =
     map_option (\<lambda>s'. s'\<lparr>zs := (zs s')\<lparr>faults := faults (zs s)\<rparr>\<rparr>)
       (run_task cd i (s\<lparr>zs := (zs s)\<lparr>faults := [True]\<rparr>\<rparr>))"

section \<open>Ownership of ephemeral nodes\<close>

text \<open>Every entry of the session's table is an existing ephemeral node.\<close>

definition eph_owned :: "zk \<Rightarrow> bool" where
  "eph_owned z \<longleftrightarrow> list_all (\<lambda>p. map_option zmode (lookup z p) = Some CreateEphemeral) (ephemerals z)"

text \<open>Every ephemeral node present now but absent from the map \<open>m0\<close> of an earlier state
  is in the table: between the two states, this session created it.\<close>

definition own_tracked :: "(path \<rightharpoonup> znode) \<Rightarrow> zk \<Rightarrow> bool" where
  "own_tracked m0 z \<longleftrightarrow>
     (\<forall>q. m0 q = None \<longrightarrow> map_option zmode (lookup z q) = Some CreateEphemeral \<longrightarrow> q \<in> set (ephemerals z))"

definition eph_or_absent :: "zk \<Rightarrow> path \<Rightarrow> bool" where
  "eph_or_absent z p \<longleftrightarrow> map_option zmode (lookup z p) \<in> {None, Some CreateEphemeral}"

section \<open>Lemmas: ownership is preserved\<close>

lemma eph_owned_frame:
  assumes "eph_owned z" "set (ephemerals z') \<subseteq> set (ephemerals z)"
    "\<forall>q \<in> set (ephemerals z'). map_option zmode (lookup z' q) = map_option zmode (lookup z q)"
  shows "eph_owned z'"
  using assms unfolding eph_owned_def list_all_iff by (metis subsetD)

lemma eph_owned_nodes:
  "nodes z' = nodes z \<Longrightarrow> ephemerals z' = ephemerals z \<Longrightarrow> eph_owned z' = eph_owned z"
  by (simp add: eph_owned_def lookup_map_of)

lemma eph_owned_present: "eph_owned z \<Longrightarrow> q \<in> set (ephemerals z) \<Longrightarrow> lookup z q \<noteq> None"
  by (auto simp: eph_owned_def list_all_iff)

lemma eph_owned_srv_create:
  assumes "eph_owned z" "srv_create p d m z = Inr z'"
  shows "eph_owned z'"
proof -
  note C = srv_create_Inr [OF assms(2)]
  have "q \<noteq> p" if "q \<in> set (ephemerals z)" for q
    using eph_owned_present [OF assms(1) that] C(4) by auto
  then show ?thesis using C(1,5) by (intro eph_owned_frame [OF assms(1)]) auto
qed

lemma eph_owned_own_create:
  assumes "eph_owned z" "srv_create p d m z = Inr z'"
  shows "eph_owned (own_create m p z')"
proof -
  have "lookup z' p = Some \<lparr>zdata = d, zmode = m, zversion = 0\<rparr>"
    using srv_create_Inr(1) [OF assms(2)] by simp
  then show ?thesis using eph_owned_srv_create [OF assms]
    by (auto simp: own_create_def eph_owned_def lookup_def)
qed

lemma eph_owned_srv_set:
  assumes "eph_owned z" "srv_set p d v z = Inr z'"
  shows "eph_owned z'"
proof -
  obtain n where "lookup z p = Some n"
    "lookup z' = (lookup z)(p \<mapsto> n\<lparr>zdata := d, zversion := Suc (zversion n)\<rparr>)"
    using srv_set_Inr(1) [OF assms(2)] by blast
  then show ?thesis using srv_set_Inr(4) [OF assms(2)] by (intro eph_owned_frame [OF assms(1)]) auto
qed

lemma eph_owned_srv_delete:
  assumes "eph_owned z" "srv_delete p z = Inr z'"
  shows "eph_owned z'"
  using srv_delete_Inr(1,2) [OF assms(2)] by (intro eph_owned_frame [OF assms(1)]) auto

lemma client_inv_eph_owned: "client_inv eph_owned"
  unfolding client_inv_def
proof (intro conjI allI impI)
  fix z :: zk and p k w ms
  assume e: "eph_owned z"
  obtain f z1 where fs: "fault_step z = (f, z1)" by fastforce
  then show "eph_owned (snd (fault_step z))"
    using e fault_step_lookup [OF fs] fault_step_session [OF fs] by (simp add: eph_owned_def)
  show "eph_owned (add_watch p k w z)" using e by (simp add: eph_owned_def)
  show "eph_owned (sleep ms z)" using e by (simp add: eph_owned_def sleep_def lookup_def)
qed (fact eph_owned_own_create eph_owned_srv_set)+

lemma client_inv_own_tracked: "client_inv (own_tracked m0)"
  unfolding client_inv_def
proof (intro conjI allI impI)
  fix z :: zk and p k w ms
  assume o: "own_tracked m0 z"
  obtain f z1 where fs: "fault_step z = (f, z1)" by fastforce
  then show "own_tracked m0 (snd (fault_step z))"
    using o fault_step_lookup [OF fs] fault_step_session [OF fs] by (simp add: own_tracked_def)
  show "own_tracked m0 (add_watch p k w z)" using o by (simp add: own_tracked_def)
  show "own_tracked m0 (sleep ms z)" using o by (simp add: own_tracked_def sleep_def lookup_def)
  fix d m v z'
  show "own_tracked m0 (own_create m p z')" if c: "srv_create p d m z = Inr z'"
  proof -
    have "ephemerals (own_create m p z') = ephemerals z' @ (if m = CreateEphemeral then [p] else [])"
      by (simp add: own_create_def)
    then show ?thesis using o srv_create_Inr(1,5) [OF c] by (auto simp: own_tracked_def)
  qed
  show "own_tracked m0 z'" if c: "srv_set p d v z = Inr z'"
  proof -
    obtain n where "lookup z p = Some n"
      "lookup z' = (lookup z)(p \<mapsto> n\<lparr>zdata := d, zversion := Suc (zversion n)\<rparr>)"
      using srv_set_Inr(1) [OF c] by blast
    then show ?thesis using o srv_set_Inr(4) [OF c] by (auto simp: own_tracked_def)
  qed
qed

lemma own_tracked_start: "own_tracked (lookup z) z"
  by (simp add: own_tracked_def)

section \<open>Lemmas: the presence leaf is ephemeral\<close>

lemma server_leaf_path: "server_path t @ ''/'' @ h = abs_path (server_segs t @ [h])"
  using abs_path_child [of "server_segs t" h] by (simp add: server_path_segs server_segs_def)

text \<open>In the abstract registrations of \<open>PublishQServer\<close>, a topic's leaf that was
  absent or ephemeral stays so: its own registration creates it ephemeral or keeps it,
  and the other topics' registrations do not touch it.\<close>

lemma fold_register_server_leaf:
  assumes "good_seg h" "good_seg t" "\<forall>t' \<in> set ts. good_seg t'"
    "map_option zmode (m (abs_path (server_segs t @ [h]))) \<in> {None, Some CreateEphemeral}"
  shows "map_option zmode (fold (\<lambda>t m. register_spec (server_segs t) h CreateEphemeral None m) ts m
           (abs_path (server_segs t @ [h]))) \<in> {None, Some CreateEphemeral}"
  using assms(3,4)
proof (induction ts arbitrary: m)
  case (Cons t' ts)
  let ?L = "abs_path (server_segs t @ [h])"
  have g: "\<forall>u \<in> set (server_segs t @ [h]). good_seg u" "\<forall>u \<in> set (server_segs t'). good_seg u"
    using assms(1,2) Cons.prems(1) by (simp_all add: server_segs_def)
  have "map_option zmode (register_spec (server_segs t') h CreateEphemeral None m ?L) \<in> {None, Some CreateEphemeral}"
  proof (cases "t' = t")
    case True
    have "ensure_dirs (prefix_paths [] (server_segs t)) m ?L = m ?L"
      by (rule ensure_dirs_other, rule leaf_not_prefix) (simp add: server_segs_def)
    then show ?thesis using True Cons.prems(2)
      by (auto simp: register_spec_def put_node_def split: option.split)
  next
    case False
    have "?L \<notin> set (prefix_paths [] (server_segs t'))"
      using leaf_not_other_prefix [OF g] by (auto simp: server_segs_def)
    moreover have "?L \<noteq> abs_path (server_segs t' @ [h])"
    proof
      assume "?L = abs_path (server_segs t' @ [h])"
      then have "server_segs t @ [h] = server_segs t' @ [h]"
        using g assms(1) by (intro abs_path_inj) auto
      with False show False by (simp add: server_segs_def)
    qed
    ultimately show ?thesis using Cons.prems(2) by (simp add: register_spec_other)
  qed
  then show ?case using Cons.IH Cons.prems(1) by simp
qed simp

section \<open>Lemmas: deleting the owned ephemeral nodes\<close>

lemma ephemeral_leaf:
  assumes "zk_wf z" "map_option zmode (lookup z p) = Some CreateEphemeral"
  shows "p \<noteq> ''/''" "children_of z p = []"
proof -
  show "p \<noteq> ''/''" using assms by (auto simp: zk_wf_def dir_ok_def)
  show "children_of z p = []"
  proof (rule ccontr)
    assume "children_of z p \<noteq> []"
    then obtain q k where "(q, k) \<in> set (nodes z)" "q \<noteq> ''/''" "parent_path q = p"
      by (auto simp: children_of_def concat_map_singleton split: if_splits)
    then have "dir_ok (lookup z) p" using assms(1) by (force simp: zk_wf_iff)
    then show False using assms(2) by (auto simp: dir_ok_def)
  qed
qed

lemma close_delete_cases: "close_delete p z = z \<or> srv_delete p z = Inr (close_delete p z)"
  by (cases "srv_delete p z") (simp_all add: close_delete_def)

lemma fold_close_delete_frame:
  "zk_wf z \<Longrightarrow> zk_wf (fold close_delete L z)"
  "chans (fold close_delete L z) = chans z"
proof (induction L arbitrary: z)
  case (Cons p L)
  {
    case 1
    have "zk_wf (close_delete p z)"
      using close_delete_cases [of p z] zk_wf_srv_delete [OF 1] 1 by metis
    then show ?case using Cons.IH(1) by simp
  next
    case 2
    have "chans (close_delete p z) = chans z"
      using close_delete_cases [of p z] srv_write_chans(3) by metis
    then show ?case using Cons.IH(2) by simp
  }
qed simp_all

lemma close_delete_eph:
  assumes "zk_wf z" "eph_or_absent z p"
  shows "lookup (close_delete p z) = (lookup z)(p := None)"
proof (cases "lookup z p")
  case None
  then have "close_delete p z = z" by (simp add: close_delete_def srv_delete_def)
  with None show ?thesis by (simp add: fun_upd_idem)
next
  case (Some n)
  then have e: "map_option zmode (lookup z p) = Some CreateEphemeral"
    using assms(2) by (simp add: eph_or_absent_def)
  obtain z' where d: "srv_delete p z = Inr z'"
    using ephemeral_leaf [OF assms(1) e] Some by (simp add: srv_delete_def)
  then show ?thesis using srv_delete_Inr(1) [OF d] by (simp add: close_delete_def)
qed

lemma fold_close_delete:
  assumes "zk_wf z" "list_all (eph_or_absent z) L"
  shows "lookup (fold close_delete L z) = (\<lambda>q. if q \<in> set L then None else lookup z q)"
  using assms
proof (induction L arbitrary: z)
  case Nil
  then show ?case by simp
next
  case (Cons p L)
  have h: "eph_or_absent z p" "list_all (eph_or_absent z) L" using Cons.prems(2) by simp_all
  note D = close_delete_eph [OF Cons.prems(1) h(1)]
  have "list_all (eph_or_absent (close_delete p z)) L"
    using h(2) D by (auto simp: list_all_iff eph_or_absent_def)
  moreover have "zk_wf (close_delete p z)"
    using fold_close_delete_frame(1) [OF Cons.prems(1), of "[p]"] by simp
  ultimately have "lookup (fold close_delete L (close_delete p z))
      = (\<lambda>q. if q \<in> set L then None else lookup (close_delete p z) q)"
    using Cons.IH by blast
  with D show ?case by (auto simp: fun_eq_iff)
qed

lemma Close_frame [simp]:
  "chans (Close z) = chans z" "closed (Close z)" "ephemerals (Close z) = []"
  "watches (Close z) = []" "pending (Close z) = []"
  by (simp_all add: Close_def zk_close_def fold_close_delete_frame(2))

lemma Close_nodes: "nodes (Close z) = nodes (fold close_delete (ephemerals z) z)"
  by (simp add: Close_def zk_close_def)

lemma zk_wf_Close: "zk_wf z \<Longrightarrow> zk_wf (Close z)"
  using zk_wf_nodes [OF Close_nodes] fold_close_delete_frame(1) by simp

lemma lookup_Close:
  assumes "zk_wf z" "eph_owned z"
  shows "lookup (Close z) = (\<lambda>q. if q \<in> set (ephemerals z) then None else lookup z q)"
proof -
  have "list_all (eph_or_absent z) (ephemerals z)"
    using assms(2) by (auto simp: eph_owned_def eph_or_absent_def list_all_iff)
  then show ?thesis using Close_nodes fold_close_delete [OF assms(1)] by (simp add: lookup_map_of)
qed

lemma eph_owned_Close: "eph_owned (Close z)"
  by (simp add: eph_owned_def)

section \<open>Lemmas: the closed session's dispatch loop\<close>

lemma run_task_closedE:
  assumes "run_task_closed cd i s = Some s'"
  obtains s'' where "run_task cd i (s\<lparr>zs := (zs s)\<lparr>faults := [True]\<rparr>\<rparr>) = Some s''"
    "s' = s''\<lparr>zs := (zs s'')\<lparr>faults := faults (zs s)\<rparr>\<rparr>"
  using assms by (auto simp: run_task_closed_def)

lemma client_inv_run_task_closed:
  assumes "client_inv P" "P (zs s)" "\<And>z f. P z \<Longrightarrow> P (z\<lparr>chans := f\<rparr>)"
    "\<And>z f. P z \<Longrightarrow> P (z\<lparr>faults := f\<rparr>)" "run_task_closed cd i s = Some s'"
  shows "P (zs s')"
proof (rule run_task_closedE [OF assms(5)])
  fix s'' assume r: "run_task cd i (s\<lparr>zs := (zs s)\<lparr>faults := [True]\<rparr>\<rparr>) = Some s''"
    and s': "s' = s''\<lparr>zs := (zs s'')\<lparr>faults := faults (zs s)\<rparr>\<rparr>"
  have "P (zs s'')" using client_inv_run_task [OF assms(1) _ assms(3) r] assms(2,4) by simp
  then show ?thesis using s' assms(4) by simp
qed

end
