(* ===== verification/Session.thy ===== *)
theory Session
  imports Lifecycle
begin

text \<open>
  The process of \<open>src/binding/zk_manager.go\<close> as a whole: this session's calls
  (publishers and queries), the dispatch goroutines the queries start, the other
  sessions' writes and the service's delivery of fired events into the buffered
  channels, interleaved in any order. \<open>sys_step\<close> is one such step; a run is a
  sequence of them. Each call of the package is one step, as the code runs it on the
  caller's goroutine; a dispatch goroutine's step is one iteration of its loop. The
  session may be closed (\<open>Close\<close>); after that the package's calls fail at their first
  service call and change nothing (C16), so they are no steps, while the goroutines go on
  handling their queued events with failing calls (\<open>run_task_closed\<close>). The
  invariants of runs (discovery paths, the node tree, the session's ephemeral nodes) are
  proved step by step from the \<open>Frame\<close> lemmas and then by induction over runs; the
  discovery-path invariant gives C15. Two concrete runs show the code bugs of the
  shared channels: a lost binding update and a misrouted server event.
\<close>

section \<open>Steps\<close>

inductive sys_step :: "codec \<Rightarrow> 'w sys \<Rightarrow> 'w sys \<Rightarrow> bool" for cd :: codec where
  deliver: "srv_deliver watcher_cap (zs s) = Some z' \<Longrightarrow> sys_step cd s (s\<lparr>zs := z'\<rparr>)"
| dispatch: "run_task cd i s = Some s' \<Longrightarrow> \<not> closed (zs s) \<Longrightarrow> sys_step cd s s'"
| dispatch_closed: "run_task_closed cd i s = Some s' \<Longrightarrow> closed (zs s) \<Longrightarrow> sys_step cd s s'"
| other_create: "srv_create p d m (zs s) = Inr z' \<Longrightarrow> sys_step cd s (s\<lparr>zs := z'\<rparr>)"
| other_set: "srv_set p d v (zs s) = Inr z' \<Longrightarrow> sys_step cd s (s\<lparr>zs := z'\<rparr>)"
| other_delete: "srv_delete p (zs s) = Inr z' \<Longrightarrow> sys_step cd s (s\<lparr>zs := z'\<rparr>)"
| query_servers: "GetQServerAndWatch topic nw s = (r, s') \<Longrightarrow> \<not> closed (zs s) \<Longrightarrow> sys_step cd s s'"
| query_binds: "GetBindAndWatch cd topic nw s = (r, s') \<Longrightarrow> \<not> closed (zs s) \<Longrightarrow> sys_step cd s s'"
| publish_servers: "PublishQServer hostport topics (zs s) = (e, z') \<Longrightarrow> \<not> closed (zs s) \<Longrightarrow> sys_step cd s (s\<lparr>zs := z'\<rparr>)"
| publish_topics: "PublishTopics topics groupId hostport (zs s) = (e, z') \<Longrightarrow> \<not> closed (zs s) \<Longrightarrow> sys_step cd s (s\<lparr>zs := z'\<rparr>)"
| publish_bindings: "PublishBindings cd groupId bindings (zs s) = (e', z') \<Longrightarrow> \<not> closed (zs s) \<Longrightarrow> sys_step cd s (s\<lparr>zs := z'\<rparr>)"
| close: "\<not> closed (zs s) \<Longrightarrow> sys_step cd s (s\<lparr>zs := Close (zs s)\<rparr>)"

inductive_cases sys_stepE: "sys_step cd s s'"

section \<open>Abstract specification\<close>


section \<open>Lemmas: properties of the service every step keeps\<close>

text \<open>A property of the service state that the client primitives keep
  (\<open>client_inv\<close>), that does not depend on the channel buffers and the fault oracle, and
  that delivery, the other sessions' writes and \<open>Close\<close> keep, holds after every step.\<close>

lemma srv_deliver_frame:
  "srv_deliver cap z = Some z' \<Longrightarrow> nodes z' = nodes z \<and> ephemerals z' = ephemerals z"
  by (auto simp: srv_deliver_def split: list.splits if_splits)

lemma sys_step_preserves:
  assumes "sys_step cd s s'" "P (zs s)" "client_inv P"
    and ch: "\<And>z f. P z \<Longrightarrow> P (z\<lparr>chans := f\<rparr>)" and fl: "\<And>z f. P z \<Longrightarrow> P (z\<lparr>faults := f\<rparr>)"
    and dl: "\<And>z z'. P z \<Longrightarrow> srv_deliver watcher_cap z = Some z' \<Longrightarrow> P z'"
    and cr: "\<And>p d m z z'. P z \<Longrightarrow> srv_create p d m z = Inr z' \<Longrightarrow> P z'"
    and st: "\<And>p d v z z'. P z \<Longrightarrow> srv_set p d v z = Inr z' \<Longrightarrow> P z'"
    and de: "\<And>p z z'. P z \<Longrightarrow> srv_delete p z = Inr z' \<Longrightarrow> P z'"
    and cl: "\<And>z. P z \<Longrightarrow> P (Close z)"
  shows "P (zs s')"
  using assms(1)
proof cases
  case (dispatch i)
  then show ?thesis using client_inv_run_task [OF assms(3,2) _ dispatch(1)] ch by blast
next
  case (dispatch_closed i)
  then show ?thesis using client_inv_run_task_closed [OF assms(3,2) _ _ dispatch_closed(1)] ch fl by blast
next
  case (query_servers topic nw r)
  then show ?thesis using client_inv_queries(1) [OF assms(3,2)] by blast
next
  case (query_binds topic nw r)
  then show ?thesis using client_inv_queries(2) [OF assms(3,2)] by blast
next
  case (publish_servers hostport topics e z')
  then show ?thesis using client_inv_publishers(1) [OF assms(3,2), of hostport topics] by simp
next
  case (publish_topics topics groupId hostport e z')
  then show ?thesis using client_inv_publishers(2) [OF assms(3,2), of topics groupId hostport] by simp
next
  case (publish_bindings groupId bindings e' z')
  then show ?thesis using client_inv_publishers(3) [OF assms(3,2), of cd groupId bindings] by simp
next
  case (deliver z')
  then show ?thesis using dl [OF assms(2)] by simp
next
  case (other_create p d m z')
  then show ?thesis using cr [OF assms(2)] by simp
next
  case (other_set p d v z')
  then show ?thesis using st [OF assms(2)] by simp
next
  case (other_delete p z')
  then show ?thesis using de [OF assms(2)] by simp
next
  case close
  then show ?thesis using cl [OF assms(2)] by simp
qed

section \<open>Lemmas: the node tree\<close>

lemma zk_wf_init: "zk_wf zk_init"
  by (simp add: zk_wf_def zk_init_def lookup_def dir_ok_def empty_dir_def)

lemma sys_step_zk_wf:
  assumes "sys_step cd s s'" "zk_wf (zs s)"
  shows "zk_wf (zs s')"
proof (rule sys_step_preserves [OF assms client_inv_zk_wf])
  fix z z' :: zk and f g
  assume w: "zk_wf z"
  show "zk_wf (z\<lparr>chans := f\<rparr>)" "zk_wf (z\<lparr>faults := g\<rparr>)"
    using w zk_wf_nodes [of "z\<lparr>chans := f\<rparr>" z] zk_wf_nodes [of "z\<lparr>faults := g\<rparr>" z] by simp_all
  show "zk_wf z'" if "srv_deliver watcher_cap z = Some z'"
    using w zk_wf_nodes [of z' z] srv_deliver_frame [OF that] by simp
  show "zk_wf (Close z)" using w by (rule zk_wf_Close)
qed (fact zk_wf_srv_create zk_wf_srv_set zk_wf_srv_delete)+

section \<open>Lemmas: the session's ephemeral nodes\<close>

lemma sys_step_eph_owned:
  assumes "sys_step cd s s'" "eph_owned (zs s)"
  shows "eph_owned (zs s')"
proof (rule sys_step_preserves [OF assms client_inv_eph_owned])
  fix z z' :: zk and f g
  assume e: "eph_owned z"
  show "eph_owned (z\<lparr>chans := f\<rparr>)" "eph_owned (z\<lparr>faults := g\<rparr>)"
    using e eph_owned_nodes [of "z\<lparr>chans := f\<rparr>" z] eph_owned_nodes [of "z\<lparr>faults := g\<rparr>" z] by simp_all
  show "eph_owned z'" if "srv_deliver watcher_cap z = Some z'"
    using e eph_owned_nodes [of z' z] srv_deliver_frame [OF that] by simp
  show "eph_owned (Close z)" by (rule eph_owned_Close)
qed (fact eph_owned_srv_create eph_owned_srv_set eph_owned_srv_delete)+

lemma zk_init_session: "zk_wf zk_init" "eph_owned zk_init" "\<not> closed zk_init"
  by (rule zk_wf_init) (simp_all add: eph_owned_def zk_init_def)

lemma run_session_inv:
  assumes "(sys_step cd)\<^sup>*\<^sup>* s0 s" "zk_wf (zs s0)" "eph_owned (zs s0)"
  shows "zk_wf (zs s) \<and> eph_owned (zs s)"
  using assms by (induction rule: rtranclp_induct) (simp_all add: sys_step_zk_wf sys_step_eph_owned)

section \<open>Lemmas: the discovery-path invariant\<close>









section \<open>Lemmas: concrete runs\<close>

text \<open>Steps of the process whose premises a concrete run discharges by evaluation.\<close>

lemma sys_step_eval:
  "\<not> closed (zs s) \<Longrightarrow> sys_step cd s (snd (GetQServerAndWatch topic nw s))"
  "\<not> closed (zs s) \<Longrightarrow> sys_step cd s (snd (GetBindAndWatch cd topic nw s))"
  "\<not> isl (srv_create p d m (zs s)) \<Longrightarrow> sys_step cd s (s\<lparr>zs := projr (srv_create p d m (zs s))\<rparr>)"
  "\<not> isl (srv_set p d v (zs s)) \<Longrightarrow> sys_step cd s (s\<lparr>zs := projr (srv_set p d v (zs s))\<rparr>)"
  "srv_deliver watcher_cap (zs s) \<noteq> None \<Longrightarrow> sys_step cd s (s\<lparr>zs := the (srv_deliver watcher_cap (zs s))\<rparr>)"
  "run_task cd i s \<noteq> None \<and> \<not> closed (zs s) \<Longrightarrow> sys_step cd s (the (run_task cd i s))"
  "\<not> closed (zs s) \<Longrightarrow> sys_step cd s (s\<lparr>zs := snd (PublishQServer h ts (zs s))\<rparr>)"
  "\<not> closed (zs s) \<Longrightarrow> sys_step cd s (s\<lparr>zs := snd (PublishBindings cd g bs (zs s))\<rparr>)"
  "\<not> closed (zs s) \<Longrightarrow> sys_step cd s (s\<lparr>zs := Close (zs s)\<rparr>)"
proof -
  show "\<not> closed (zs s) \<Longrightarrow> sys_step cd s (snd (GetQServerAndWatch topic nw s))"
    by (rule query_servers [OF surjective_pairing])
  show "\<not> closed (zs s) \<Longrightarrow> sys_step cd s (snd (GetBindAndWatch cd topic nw s))"
    by (rule query_binds [OF surjective_pairing])
  show "\<not> isl (srv_create p d m (zs s)) \<Longrightarrow> sys_step cd s (s\<lparr>zs := projr (srv_create p d m (zs s))\<rparr>)"
    by (rule other_create) (cases "srv_create p d m (zs s)"; simp)
  show "\<not> isl (srv_set p d v (zs s)) \<Longrightarrow> sys_step cd s (s\<lparr>zs := projr (srv_set p d v (zs s))\<rparr>)"
    by (rule other_set) (cases "srv_set p d v (zs s)"; simp)
  show "srv_deliver watcher_cap (zs s) \<noteq> None \<Longrightarrow> sys_step cd s (s\<lparr>zs := the (srv_deliver watcher_cap (zs s))\<rparr>)"
    by (rule deliver) auto
  show "run_task cd i s \<noteq> None \<and> \<not> closed (zs s) \<Longrightarrow> sys_step cd s (the (run_task cd i s))"
    by (rule dispatch) auto
  show "\<not> closed (zs s) \<Longrightarrow> sys_step cd s (s\<lparr>zs := snd (PublishQServer h ts (zs s))\<rparr>)"
    by (rule publish_servers [OF surjective_pairing])
  show "\<not> closed (zs s) \<Longrightarrow> sys_step cd s (s\<lparr>zs := snd (PublishBindings cd g bs (zs s))\<rparr>)"
    by (rule publish_bindings [OF surjective_pairing])
  show "\<not> closed (zs s) \<Longrightarrow> sys_step cd s (s\<lparr>zs := Close (zs s)\<rparr>)"
    by (rule close)
qed

lemmas run_extend = rtranclp.rtrancl_into_rtrancl

section \<open>Properties of the process\<close>



text \<open>Lost binding update (spec \<section>1 and \<section>4.5), a concrete run. A binding query on topic
  \<open>A\<close> arms a data watch on the group leaf \<open>/kiteq/sub/A/G1-bind\<close> with the topic
  goroutine's channel. When another session updates the leaf, the event reaches the
  goroutine of \<open>/kiteq/sub/A\<close>, which handles it under its own path: no callback, and
  only the topic's existence watch is re-armed. A second update then fires nothing at
  all: both updates are lost without trace.\<close>

theorem binding_update_lost:
  "let b = (\<lambda>d. \<lparr>GroupId = ''G1'', Topic = ''A'', MessageType = d, BindType = Direct, Persistent = True\<rparr>);
       cd = \<lparr>MarshalBinds = (\<lambda>bs. Inr []), UmarshalBinds = (\<lambda>d. Inr [b d])\<rparr>;
       s0 = (\<lparr>zs = zk_init\<lparr>nodes := [(''/'', empty_dir), (''/kiteq/sub/A'', empty_dir),
                                   (''/kiteq/sub/A/G1-bind'', empty_dir\<lparr>zdata := ''v1''\<rparr>)]\<rparr>,
              tasks = [], trace = []\<rparr> :: nat sys);
       (r, s1) = GetBindAndWatch cd ''A'' (NewWatcher 0 1) s0;
       s2 = s1\<lparr>zs := projr (srv_set ''/kiteq/sub/A/G1-bind'' ''v2'' (-1) (zs s1))\<rparr>;
       s3 = s2\<lparr>zs := the (srv_deliver watcher_cap (zs s2))\<rparr>;
       s4 = the (run_task cd 0 s3);
       s5 = s4\<lparr>zs := projr (srv_set ''/kiteq/sub/A/G1-bind'' ''v3'' (-1) (zs s4))\<rparr>
   in r = Inr [b ''v1''] \<and> (sys_step cd)\<^sup>*\<^sup>* s0 s5
    \<and> map_option zdata (lookup (zs s5) ''/kiteq/sub/A/G1-bind'') = Some ''v3''
    \<and> trace s5 = [] \<and> pending (zs s5) = [] \<and> chans (zs s5) 1 = []
    \<and> list_all (\<lambda>w. fst w \<noteq> ''/kiteq/sub/A/G1-bind'') (watches (zs s5))"
proof -
  define b where "b = (\<lambda>d. \<lparr>GroupId = ''G1'', Topic = ''A'', MessageType = d, BindType = Direct, Persistent = True\<rparr>)"
  define cd where "cd = \<lparr>MarshalBinds = (\<lambda>bs::binding list. Inr ([]::bytes)), UmarshalBinds = (\<lambda>d. Inr [b d])\<rparr>"
  define s0 where "s0 = (\<lparr>zs = zk_init\<lparr>nodes := [(''/'', empty_dir), (''/kiteq/sub/A'', empty_dir),
                                   (''/kiteq/sub/A/G1-bind'', empty_dir\<lparr>zdata := ''v1''\<rparr>)]\<rparr>,
              tasks = [], trace = []\<rparr> :: nat sys)"
  define s1 where "s1 = snd (GetBindAndWatch cd ''A'' (NewWatcher 0 1) s0)"
  define s2 where "s2 = s1\<lparr>zs := projr (srv_set ''/kiteq/sub/A/G1-bind'' ''v2'' (-1) (zs s1))\<rparr>"
  define s3 where "s3 = s2\<lparr>zs := the (srv_deliver watcher_cap (zs s2))\<rparr>"
  define s4 where "s4 = the (run_task cd 0 s3)"
  define s5 where "s5 = s4\<lparr>zs := projr (srv_set ''/kiteq/sub/A/G1-bind'' ''v3'' (-1) (zs s4))\<rparr>"
  note defs = s5_def s4_def s3_def s2_def s1_def s0_def cd_def b_def
  have "(sys_step cd)\<^sup>*\<^sup>* s0 s1" unfolding s1_def by (rule r_into_rtranclp, rule sys_step_eval(2)) (simp add: s0_def zk_init_def)
  moreover have "\<not> isl (srv_set ''/kiteq/sub/A/G1-bind'' ''v2'' (-1) (zs s1))"
    unfolding s1_def s0_def cd_def b_def by code_simp
  ultimately have "(sys_step cd)\<^sup>*\<^sup>* s0 s2" unfolding s2_def by (blast intro: run_extend sys_step_eval(4))
  moreover have "srv_deliver watcher_cap (zs s2) \<noteq> None"
    unfolding s2_def s1_def s0_def cd_def b_def by code_simp
  ultimately have "(sys_step cd)\<^sup>*\<^sup>* s0 s3" unfolding s3_def by (blast intro: run_extend sys_step_eval(5))
  moreover have "run_task cd 0 s3 \<noteq> None \<and> \<not> closed (zs s3)"
    unfolding s3_def s2_def s1_def s0_def cd_def b_def by code_simp
  ultimately have "(sys_step cd)\<^sup>*\<^sup>* s0 s4" unfolding s4_def by (blast intro: run_extend sys_step_eval(6))
  moreover have "\<not> isl (srv_set ''/kiteq/sub/A/G1-bind'' ''v3'' (-1) (zs s4))"
    unfolding s4_def s3_def s2_def s1_def s0_def cd_def b_def by code_simp
  ultimately have run: "(sys_step cd)\<^sup>*\<^sup>* s0 s5" unfolding s5_def by (blast intro: run_extend sys_step_eval(4))
  have r: "fst (GetBindAndWatch cd ''A'' (NewWatcher 0 1) s0) = Inr [b ''v1'']"
    unfolding s0_def cd_def b_def by code_simp
  have "map_option zdata (lookup (zs s5) ''/kiteq/sub/A/G1-bind'') = Some ''v3''
    \<and> trace s5 = [] \<and> pending (zs s5) = [] \<and> chans (zs s5) 1 = []
    \<and> list_all (\<lambda>w. fst w \<noteq> ''/kiteq/sub/A/G1-bind'') (watches (zs s5))"
    unfolding defs by code_simp
  with run r show ?thesis
    by (simp add: Let_def split_def cd_def b_def s0_def s1_def s2_def s3_def s4_def s5_def)
qed

text \<open>One reader per channel (spec \<section>4.5), a concrete run. A server query on topic \<open>A\<close> and a
  binding query on topic \<open>B\<close> with the same \<open>Watcher\<close> start two goroutines reading
  one channel. When a server joins \<open>A\<close>, the goroutine of \<open>/kiteq/sub/B\<close> may take the
  event and report \<open>ChildWatcher("/kiteq/sub/B", [])\<close>; the event is consumed and the
  server list of \<open>A\<close> is never reported.\<close>

theorem shared_channel_misroute:
  "let cd = \<lparr>MarshalBinds = (\<lambda>bs. Inr []), UmarshalBinds = (\<lambda>d. Inr [])\<rparr>;
       nw = NewWatcher (0::nat) 1;
       s0 = \<lparr>zs = zk_init\<lparr>nodes := [(''/'', empty_dir), (''/kiteq/server/A'', empty_dir), (''/kiteq/sub/B'', empty_dir)]\<rparr>,
             tasks = [], trace = []\<rparr>;
       s1 = snd (GetQServerAndWatch ''A'' nw s0);
       s2 = snd (GetBindAndWatch cd ''B'' nw s1);
       s3 = s2\<lparr>zs := projr (srv_create ''/kiteq/server/A/h:1'' [] CreateEphemeral (zs s2))\<rparr>;
       s4 = s3\<lparr>zs := the (srv_deliver watcher_cap (zs s3))\<rparr>;
       s5 = the (run_task cd 1 s4)
   in (sys_step cd)\<^sup>*\<^sup>* s0 s5 \<and> tasks s5 = [(''/kiteq/server/A'', nw), (''/kiteq/sub/B'', nw)]
    \<and> children_of (zs s5) ''/kiteq/server/A'' = [''h:1'']
    \<and> trace s5 = [(0, ChildWatcher ''/kiteq/sub/B'' [])] \<and> chans (zs s5) 1 = [] \<and> pending (zs s5) = []"
proof -
  define cd where "cd = \<lparr>MarshalBinds = (\<lambda>bs::binding list. Inr ([]::bytes)), UmarshalBinds = (\<lambda>d::bytes. Inr ([]::binding list))\<rparr>"
  define nw where "nw = NewWatcher (0::nat) 1"
  define s0 where "s0 = (\<lparr>zs = zk_init\<lparr>nodes := [(''/'', empty_dir), (''/kiteq/server/A'', empty_dir), (''/kiteq/sub/B'', empty_dir)]\<rparr>,
             tasks = [], trace = []\<rparr> :: nat sys)"
  define s1 where "s1 = snd (GetQServerAndWatch ''A'' nw s0)"
  define s2 where "s2 = snd (GetBindAndWatch cd ''B'' nw s1)"
  define s3 where "s3 = s2\<lparr>zs := projr (srv_create ''/kiteq/server/A/h:1'' [] CreateEphemeral (zs s2))\<rparr>"
  define s4 where "s4 = s3\<lparr>zs := the (srv_deliver watcher_cap (zs s3))\<rparr>"
  define s5 where "s5 = the (run_task cd 1 s4)"
  note defs = s5_def s4_def s3_def s2_def s1_def s0_def nw_def cd_def
  have "(sys_step cd)\<^sup>*\<^sup>* s0 s1" unfolding s1_def by (rule r_into_rtranclp, rule sys_step_eval(1)) (simp add: s0_def zk_init_def)
  moreover have "\<not> closed (zs s1)" unfolding s1_def s0_def nw_def by code_simp
  ultimately have "(sys_step cd)\<^sup>*\<^sup>* s0 s2" unfolding s2_def by (blast intro: run_extend sys_step_eval(2))
  moreover have "\<not> isl (srv_create ''/kiteq/server/A/h:1'' [] CreateEphemeral (zs s2))"
    unfolding s2_def s1_def s0_def nw_def cd_def by code_simp
  ultimately have "(sys_step cd)\<^sup>*\<^sup>* s0 s3" unfolding s3_def by (blast intro: run_extend sys_step_eval(3))
  moreover have "srv_deliver watcher_cap (zs s3) \<noteq> None"
    unfolding s3_def s2_def s1_def s0_def nw_def cd_def by code_simp
  ultimately have "(sys_step cd)\<^sup>*\<^sup>* s0 s4" unfolding s4_def by (blast intro: run_extend sys_step_eval(5))
  moreover have "run_task cd 1 s4 \<noteq> None \<and> \<not> closed (zs s4)"
    unfolding s4_def s3_def s2_def s1_def s0_def nw_def cd_def by code_simp
  ultimately have run: "(sys_step cd)\<^sup>*\<^sup>* s0 s5" unfolding s5_def by (blast intro: run_extend sys_step_eval(6))
  have "tasks s5 = [(''/kiteq/server/A'', nw), (''/kiteq/sub/B'', nw)]
    \<and> children_of (zs s5) ''/kiteq/server/A'' = [''h:1'']
    \<and> trace s5 = [(0, ChildWatcher ''/kiteq/sub/B'' [])] \<and> chans (zs s5) 1 = [] \<and> pending (zs s5) = []"
    unfolding defs by code_simp
  with run show ?thesis by (simp add: Let_def defs)
qed


end
