(* ===== verification/Store.thy ===== *)
theory Store
  imports Prelude
begin

text \<open>
  The storage contract of \<open>src/store/kite_store.go\<close>: the persisted \<open>MessageEntity\<close>
  (lines 9-28), its \<open>String\<close> and \<open>GetBody\<close> methods (30-36), the two constructors
  from protocol messages (39-72) and the \<open>IKiteStore\<close> interface (75-82). The protocol
  package (\<open>Header\<close>, \<open>StringMessage\<close>, \<open>BytesMessage\<close>, the message-kind constants) is
  not in the repository snapshot and is modelled from its use here. The interface has
  no implementation in the repository: it is a record of operations over any store
  state \<open>'s\<close>, with the contract of spec \<section>4.7 as a predicate on it, and an in-memory
  reference store (the test fake of spec \<section>9) that meets the contract. Go's \<open>int64\<close>
  timestamps are only copied, never computed with, so they are \<^typ>\<open>int\<close>.
\<close>

section \<open>Protocol messages\<close>

text \<open>The header accessors the constructors call (\<open>GetMessageId\<close> and so on).\<close>

record Header =
  MessageId :: string
  HTopic :: string
  GroupId_h :: string
  HMessageType :: string
  HCommit :: bool
  ExpiredTime :: int

record StringMessage =
  SHeader :: Header
  SBody :: string

record BytesMessage =
  BHeader :: Header
  BBody :: bytes

text \<open>\<open>protocol.CMD_STRING_MESSAGE\<close> and \<open>protocol.CMD_BYTES_MESSAGE\<close>: the two kinds a
  \<open>uint8\<close> message type takes here.\<close>

datatype msg_kind = CMD_STRING_MESSAGE | CMD_BYTES_MESSAGE

section \<open>MessageEntity\<close>

record MessageEntity =
  EHeader :: Header
  body :: bytes
  msgType :: msg_kind
  messageId :: string
  topic :: string
  messageType :: string
  publishGroup :: string
  commit :: bool
  expiredTime :: int
  kiteQServer :: string
  failGroupTags :: "string list"
  nextDeliverTime :: int

text \<open>Line 31, \<open>fmt.Sprintf("id:%s topic:%s commit:%t body:%s", ...)\<close>.\<close>

definition MessageEntity_String :: "MessageEntity \<Rightarrow> string" where
  "MessageEntity_String e =
     ''id:'' @ messageId e @ '' topic:'' @ topic e @ '' commit:'' @
     (if commit e then ''true'' else ''false'') @ '' body:'' @ body e"

definition GetBody :: "MessageEntity \<Rightarrow> bytes" where
  "GetBody e = body e"

text \<open>Lines 39-54 and 57-72. The fields the literals leave out take Go's zero values:
  the empty string, a \<open>nil\<close> slice and \<open>0\<close>. \<open>[]byte(s)\<close> of a string is its bytes.\<close>

definition NewStringMessageEntity :: "StringMessage \<Rightarrow> MessageEntity" where
  "NewStringMessageEntity msg =
     \<lparr>EHeader = SHeader msg, body = SBody msg, msgType = CMD_STRING_MESSAGE,
      messageId = MessageId (SHeader msg), topic = HTopic (SHeader msg),
      messageType = HMessageType (SHeader msg), publishGroup = GroupId_h (SHeader msg),
      commit = HCommit (SHeader msg), expiredTime = ExpiredTime (SHeader msg),
      kiteQServer = [], failGroupTags = [], nextDeliverTime = 0\<rparr>"

definition NewBytesMessageEntity :: "BytesMessage \<Rightarrow> MessageEntity" where
  "NewBytesMessageEntity msg =
     \<lparr>EHeader = BHeader msg, body = BBody msg, msgType = CMD_BYTES_MESSAGE,
      messageId = MessageId (BHeader msg), topic = HTopic (BHeader msg),
      messageType = HMessageType (BHeader msg), publishGroup = GroupId_h (BHeader msg),
      commit = HCommit (BHeader msg), expiredTime = ExpiredTime (BHeader msg),
      kiteQServer = [], failGroupTags = [], nextDeliverTime = 0\<rparr>"

section \<open>IKiteStore\<close>

text \<open>Lines 75-82: each method with the store's state passed explicitly; a \<open>nil\<close>
  entity from \<open>Query\<close> is \<open>None\<close>.\<close>

record 's IKiteStore =
  Query :: "'s \<Rightarrow> string \<Rightarrow> MessageEntity option"
  Save :: "MessageEntity \<Rightarrow> 's \<Rightarrow> bool \<times> 's"
  Commit :: "string \<Rightarrow> 's \<Rightarrow> bool \<times> 's"
  Rollback :: "string \<Rightarrow> 's \<Rightarrow> bool \<times> 's"
  UpdateEntity :: "MessageEntity \<Rightarrow> 's \<Rightarrow> bool \<times> 's"
  Delete :: "string \<Rightarrow> 's \<Rightarrow> bool \<times> 's"

section \<open>Abstract specification: the storage contract\<close>

text \<open>Spec \<section>4.7. \<open>Save\<close> rejects a duplicate id and keeps the store; it stores a new
  entity. \<open>Commit\<close> fails on an unknown id and sets the flag of a known one.
  \<open>Rollback\<close> fails on an unknown or committed entry. \<open>UpdateEntity\<close> of a stored id
  replaces the delivery-tracking fields only. No operation but \<open>Commit\<close> turns a stored
  flag from false to true, and only \<open>Save\<close> adds an entry.\<close>

definition delivery_update :: "MessageEntity \<Rightarrow> MessageEntity \<Rightarrow> MessageEntity" where
  "delivery_update old e = old\<lparr>failGroupTags := failGroupTags e, nextDeliverTime := nextDeliverTime e,
     kiteQServer := kiteQServer e\<rparr>"

definition no_new_commit :: "'s IKiteStore \<Rightarrow> 's \<Rightarrow> 's \<Rightarrow> bool" where
  "no_new_commit st s s' \<longleftrightarrow> (\<forall>i e'. Query st s' i = Some e' \<longrightarrow>
     (\<exists>e. Query st s i = Some e \<and> (commit e' \<longrightarrow> commit e)))"

definition kite_store_contract :: "'s IKiteStore \<Rightarrow> bool" where
  "kite_store_contract st \<longleftrightarrow>
     (\<forall>e s ok s'. Save st e s = (ok, s') \<longrightarrow>
        (Query st s (messageId e) \<noteq> None \<longrightarrow> \<not> ok \<and> Query st s' = Query st s)
      \<and> (Query st s (messageId e) = None \<longrightarrow> ok \<and> Query st s' = (Query st s)(messageId e \<mapsto> e)))
   \<and> (\<forall>i s ok s'. Commit st i s = (ok, s') \<longrightarrow>
        (Query st s i = None \<longrightarrow> \<not> ok \<and> Query st s' = Query st s)
      \<and> (\<forall>e. Query st s i = Some e \<longrightarrow> ok \<and> Query st s' = (Query st s)(i \<mapsto> e\<lparr>commit := True\<rparr>)))
   \<and> (\<forall>i s ok s'. Rollback st i s = (ok, s') \<longrightarrow>
        (Query st s i = None \<longrightarrow> \<not> ok \<and> Query st s' = Query st s)
      \<and> (\<forall>e. Query st s i = Some e \<longrightarrow> commit e \<longrightarrow> \<not> ok \<and> Query st s' = Query st s)
      \<and> no_new_commit st s s')
   \<and> (\<forall>e s ok s'. UpdateEntity st e s = (ok, s') \<longrightarrow>
        (Query st s (messageId e) = None \<longrightarrow> \<not> ok \<and> Query st s' = Query st s)
      \<and> (\<forall>old. Query st s (messageId e) = Some old \<longrightarrow>
             ok \<and> Query st s' = (Query st s)(messageId e \<mapsto> delivery_update old e)))
   \<and> (\<forall>i s ok s'. Delete st i s = (ok, s') \<longrightarrow> no_new_commit st s s' \<and> Query st s' i = None)"

section \<open>A reference store\<close>

text \<open>The in-memory store of spec \<section>9: an association list from id to entity.
  \<open>Rollback\<close> of an uncommitted entry removes it, as an abandoned half message.\<close>

type_synonym mem_store = "(string \<times> MessageEntity) list"

definition mem_save :: "MessageEntity \<Rightarrow> mem_store \<Rightarrow> bool \<times> mem_store" where
  "mem_save e s = (if map_of s (messageId e) = None then (True, AList.update (messageId e) e s) else (False, s))"

definition mem_commit :: "string \<Rightarrow> mem_store \<Rightarrow> bool \<times> mem_store" where
  "mem_commit i s = (case map_of s i of
     None \<Rightarrow> (False, s)
   | Some e \<Rightarrow> (True, AList.update i (e\<lparr>commit := True\<rparr>) s))"

definition mem_rollback :: "string \<Rightarrow> mem_store \<Rightarrow> bool \<times> mem_store" where
  "mem_rollback i s = (case map_of s i of
     None \<Rightarrow> (False, s)
   | Some e \<Rightarrow> if commit e then (False, s) else (True, AList.delete i s))"

definition mem_update :: "MessageEntity \<Rightarrow> mem_store \<Rightarrow> bool \<times> mem_store" where
  "mem_update e s = (case map_of s (messageId e) of
     None \<Rightarrow> (False, s)
   | Some old \<Rightarrow> (True, AList.update (messageId e) (delivery_update old e) s))"

definition mem_delete :: "string \<Rightarrow> mem_store \<Rightarrow> bool \<times> mem_store" where
  "mem_delete i s = (map_of s i \<noteq> None, AList.delete i s)"

definition mem_kite_store :: "mem_store IKiteStore" where
  "mem_kite_store = \<lparr>Query = map_of, Save = mem_save, Commit = mem_commit, Rollback = mem_rollback,
     UpdateEntity = mem_update, Delete = mem_delete\<rparr>"

section \<open>Lemmas\<close>

lemma mem_store_simps:
  "Query mem_kite_store = map_of" "Save mem_kite_store = mem_save" "Commit mem_kite_store = mem_commit"
  "Rollback mem_kite_store = mem_rollback" "UpdateEntity mem_kite_store = mem_update"
  "Delete mem_kite_store = mem_delete"
  by (simp_all add: mem_kite_store_def)

lemma map_of_update_fun: "map_of (AList.update k v al) = (map_of al)(k \<mapsto> v)"
  by (simp add: update_conv' fun_eq_iff)

lemma map_of_delete_fun: "map_of (AList.delete k al) = (map_of al)(k := None)"
  by (simp add: delete_conv' fun_eq_iff)


lemma mem_kite_store_contract: "kite_store_contract mem_kite_store"
  unfolding kite_store_contract_def mem_store_simps
  by (auto simp: mem_save_def mem_commit_def mem_rollback_def mem_update_def mem_delete_def
      map_of_update_fun map_of_delete_fun no_new_commit_def mem_store_simps split: option.splits if_splits)

text \<open>The contract, one operation at a time.\<close>

lemma contract_parts:
  assumes "kite_store_contract st"
  shows "Save st e s = (ok, s') \<Longrightarrow>
        (Query st s (messageId e) \<noteq> None \<longrightarrow> \<not> ok \<and> Query st s' = Query st s)
      \<and> (Query st s (messageId e) = None \<longrightarrow> ok \<and> Query st s' = (Query st s)(messageId e \<mapsto> e))"
    and "Commit st i s = (ok, s') \<Longrightarrow>
        (Query st s i = None \<longrightarrow> \<not> ok \<and> Query st s' = Query st s)
      \<and> (\<forall>e. Query st s i = Some e \<longrightarrow> ok \<and> Query st s' = (Query st s)(i \<mapsto> e\<lparr>commit := True\<rparr>))"
    and "Rollback st i s = (ok, s') \<Longrightarrow>
        (Query st s i = None \<longrightarrow> \<not> ok \<and> Query st s' = Query st s)
      \<and> (\<forall>e. Query st s i = Some e \<longrightarrow> commit e \<longrightarrow> \<not> ok \<and> Query st s' = Query st s)
      \<and> no_new_commit st s s'"
    and "UpdateEntity st e s = (ok, s') \<Longrightarrow>
        (Query st s (messageId e) = None \<longrightarrow> \<not> ok \<and> Query st s' = Query st s)
      \<and> (\<forall>old. Query st s (messageId e) = Some old \<longrightarrow>
             ok \<and> Query st s' = (Query st s)(messageId e \<mapsto> delivery_update old e))"
    and "Delete st i s = (ok, s') \<Longrightarrow> no_new_commit st s s' \<and> Query st s' i = None"
proof -
  note c = assms [unfolded kite_store_contract_def]
  show "Save st e s = (ok, s') \<Longrightarrow>
        (Query st s (messageId e) \<noteq> None \<longrightarrow> \<not> ok \<and> Query st s' = Query st s)
      \<and> (Query st s (messageId e) = None \<longrightarrow> ok \<and> Query st s' = (Query st s)(messageId e \<mapsto> e))"
    using c [THEN conjunct1] by (elim allE impE)
  show "Commit st i s = (ok, s') \<Longrightarrow>
        (Query st s i = None \<longrightarrow> \<not> ok \<and> Query st s' = Query st s)
      \<and> (\<forall>e. Query st s i = Some e \<longrightarrow> ok \<and> Query st s' = (Query st s)(i \<mapsto> e\<lparr>commit := True\<rparr>))"
    using c [THEN conjunct2, THEN conjunct1] by (elim allE impE)
  show "Rollback st i s = (ok, s') \<Longrightarrow>
        (Query st s i = None \<longrightarrow> \<not> ok \<and> Query st s' = Query st s)
      \<and> (\<forall>e. Query st s i = Some e \<longrightarrow> commit e \<longrightarrow> \<not> ok \<and> Query st s' = Query st s)
      \<and> no_new_commit st s s'"
    using c [THEN conjunct2, THEN conjunct2, THEN conjunct1] by (elim allE impE)
  show "UpdateEntity st e s = (ok, s') \<Longrightarrow>
        (Query st s (messageId e) = None \<longrightarrow> \<not> ok \<and> Query st s' = Query st s)
      \<and> (\<forall>old. Query st s (messageId e) = Some old \<longrightarrow>
             ok \<and> Query st s' = (Query st s)(messageId e \<mapsto> delivery_update old e))"
    using c [THEN conjunct2, THEN conjunct2, THEN conjunct2, THEN conjunct1] by (elim allE impE)
  show "Delete st i s = (ok, s') \<Longrightarrow> no_new_commit st s s' \<and> Query st s' i = None"
    using c [THEN conjunct2, THEN conjunct2, THEN conjunct2, THEN conjunct2] by (elim allE impE)
qed

section \<open>Properties of the storage contract\<close>

text \<open>C18 (spec \<section>3, commit starts false). \<open>NewStringMessageEntity\<close> copies the
  header's commit flag, so a message whose header is committed is saved committed
  without any \<open>Commit\<close>, and on any store meeting the contract it can then never be
  rolled back.\<close>

theorem precommitted_entity_not_rollbackable:
  assumes "kite_store_contract st" "HCommit (SHeader m)" "Query st s (MessageId (SHeader m)) = None"
    "Save st (NewStringMessageEntity m) s = (ok1, s1)" "Rollback st (MessageId (SHeader m)) s1 = (ok2, s2)"
  shows "ok1 \<and> \<not> ok2 \<and> Query st s2 (MessageId (SHeader m)) = Some (NewStringMessageEntity m)
    \<and> commit (NewStringMessageEntity m)"
proof -
  have id: "messageId (NewStringMessageEntity m) = MessageId (SHeader m)"
    and c: "commit (NewStringMessageEntity m)"
    using assms(2) by (simp_all add: NewStringMessageEntity_def)
  from contract_parts(1) [OF assms(1,4)] assms(3) id
  have 1: "ok1" "Query st s1 = (Query st s)(MessageId (SHeader m) \<mapsto> NewStringMessageEntity m)" by simp_all
  from contract_parts(3) [OF assms(1,5)] 1 c show ?thesis by auto
qed

theorem precommitted_entity_not_rollbackable_witness:
  "let m = \<lparr>SHeader = \<lparr>MessageId = ''m1'', HTopic = ''t'', GroupId_h = ''g'', HMessageType = ''x'', HCommit = True, ExpiredTime = 0\<rparr>, SBody = ''hello''\<rparr>;
       (ok1, s1) = Save mem_kite_store (NewStringMessageEntity m) [];
       (ok2, s2) = Rollback mem_kite_store ''m1'' s1
   in HCommit (SHeader m) \<and> ok1 \<and> \<not> ok2 \<and> commit (NewStringMessageEntity m)"
proof -
  let ?m = "\<lparr>SHeader = \<lparr>MessageId = ''m1'', HTopic = ''t'', GroupId_h = ''g'', HMessageType = ''x'', HCommit = True, ExpiredTime = 0\<rparr>, SBody = ''hello''\<rparr>"
  obtain ok1 s1 where 1: "Save mem_kite_store (NewStringMessageEntity ?m) [] = (ok1, s1)" by fastforce
  obtain ok2 s2 where 2: "Rollback mem_kite_store (MessageId (SHeader ?m)) s1 = (ok2, s2)" by fastforce
  have h: "HCommit (SHeader ?m)" "Query mem_kite_store [] (MessageId (SHeader ?m)) = None"
    by (simp_all add: mem_store_simps)
  from precommitted_entity_not_rollbackable [OF mem_kite_store_contract h 1 2] 1 2 h show ?thesis
    by simp
qed

end
