(* ===== verification/Spec2Isabelle.thy ===== *)
theory Spec2Isabelle
  imports Session Store
begin

text \<open>
  \<^bold>\<open>kiteq: the coordination layer and the storage contract.\<close>

  The repository's code under \<open>src/\<close> is two Go files. \<open>src/binding/zk_manager.go\<close> is
  the binding package's client of a ZooKeeper ensemble: it bootstraps the session
  (\<open>NewZKManager\<close>), registers paths with all their ancestors (\<open>registePath\<close>,
  \<open>traverseCreatePath\<close>, \<open>innerCreatePath\<close>), publishes broker and publisher presence
  (\<open>PublishQServer\<close>, \<open>PublishTopics\<close>) and consumer-group bindings
  (\<open>PublishBindings\<close>), answers discovery queries that also arm watches
  (\<open>GetQServerAndWatch\<close>, \<open>GetBindAndWatch\<close>, \<open>getBindData\<close>) and runs one dispatch
  goroutine per query (\<open>addWatch\<close>) that turns watch events into callbacks of an
  \<open>IWatcher\<close>. \<open>src/store/kite_store.go\<close> defines the persisted \<open>MessageEntity\<close>, its
  two constructors and the \<open>IKiteStore\<close> interface. The publishers call the registrar;
  the registrar, the queries and the goroutines call the coordination service; the
  queries start the goroutines; the publishers and the queries share the binding
  codec, which is outside \<open>src/\<close>.

  \<^bold>\<open>Theories.\<close>
  \<^item> \<open>Prelude\<close>: type names (\<open>path\<close>, \<open>bytes\<close>), Go's \<open>strings.Split\<close>, \<open>Join\<close> and
    \<open>LastIndex\<close> as \<open>split_on\<close>, \<open>join_on\<close>, \<open>last_index\<close> with their laws (join of a
    split, split of a join, last occurrence of a suffix), association-list lemmas.
  \<^item> \<open>Zk\<close>: the coordination service, an external library modelled from the spec. Its
    state \<^typ>\<open>zk\<close> holds the node tree (path to data, mode, version), the armed
    single-fire watches with their channels, the fired events not yet delivered, the
    buffer of every channel, this session's fault oracle (each client call consumes
    one entry; \<open>True\<close> is a connection loss, so every error branch of the client code
    is reachable), a clock in ms for the code's sleeps, the session's table of the
    ephemeral nodes it created (\<open>own_create\<close>) and whether it is closed; \<open>zk_close\<close> is
    the server's end of a session (its ephemeral nodes deleted one by one with
    \<open>close_delete\<close>, its watches and undelivered events dropped). \<open>srv_create\<close>,
    \<open>srv_set\<close>, \<open>srv_delete\<close> are the server's writes (also other sessions'), which
    fire watches; \<open>srv_deliver\<close> moves the first fired event into its channel if the
    channel has room; \<open>zk_exists\<close>, \<open>zk_get\<close>, \<open>zk_children\<close>, \<open>zk_create\<close>,
    \<open>zk_set\<close> are this session's calls.
  \<^item> \<open>Namespace\<close>: \<open>KITEQ\<close>, \<open>KITEQ_SERVER\<close>, \<open>KITEQ_PUB\<close>, \<open>KITEQ_SUB\<close> (lines 11-16), the
    path builders of the publishers and queries, and \<open>not_bind_level\<close>, the test of
    the dispatch loop's \<open>Changed\<close> branch (lines 317-319).
  \<^item> \<open>Registrar\<close>: the \<open>ZKManager\<close> record (its session handle),
    \<open>NewZKManager\<close>, \<open>registePath\<close>, \<open>traverseCreatePath\<close> (its loop is
    \<open>traverse_loop\<close>), \<open>innerCreatePath\<close> and its confirmation poll \<open>confirm_poll\<close>,
    each a function from the session state to a result and the new state; a panic or
    a Go \<open>error\<close> is a value. The abstract specification \<open>register_spec\<close> is the same
    registration on a map: missing ancestors become persistent directories, the leaf
    is created or, given data, overwritten.
  \<^item> \<open>Binding\<close>: the \<open>Binding\<close> record and the codec (\<open>MarshalBinds\<close>,
    \<open>UmarshalBinds\<close>), a parameter of every operation that uses it, modelled from the
    spec because they are not under \<open>src/\<close>.
  \<^item> \<open>Publishers\<close>: \<open>PublishQServer\<close>, \<open>PublishTopics\<close>, \<open>PublishBindings\<close> with its
    grouping loop \<open>group_loop\<close> (Go's map in first-insertion order) and its
    per-topic loop \<open>publish_groups\<close>; abstract grouping \<open>group_spec\<close>.
  \<^item> \<open>Watch\<close>: \<open>ZkEvent\<close>, the callbacks as values of \<open>callback\<close>, \<open>Watcher\<close> and
    \<open>NewWatcher\<close>, the process state \<open>sys\<close> (service, running goroutines, callback
    trace), \<open>addWatch\<close>, \<open>getBindData\<close>, \<open>handle_event\<close> (the switch of one loop
    iteration, lines 308-342) and \<open>dispatch_step\<close>/\<open>run_task\<close> (the blocking receive
    and one iteration of a given goroutine).
  \<^item> \<open>Discovery\<close>: \<open>GetQServerAndWatch\<close>, \<open>GetBindAndWatch\<close> and its group loop
    \<open>bind_loop\<close>; abstract aggregate \<open>decoded_binds\<close>.
  \<^item> \<open>Frame\<close>: \<open>client_inv P\<close>, "the primitives this package reaches the service
    through (fault oracle, watch registration, sleep, successful \<open>Create\<close> with its entry in the session's ephemeral table, and \<open>Set\<close>)
    preserve \<open>P\<close>", lifted through the registrar, the publishers, the reads, the queries
    and one iteration of a goroutine; its instances: the absence of
    faults, the set of existing nodes, and \<open>zk_wf\<close>, the well-formed node tree of spec
    \<section>2 (a map, persistent root, every node under a persistent parent), with
    \<open>ancestors\<close>, the chain of parents of a path.
  \<^item> \<open>Lifecycle\<close>: \<open>Close\<close> (lines 348-350) and \<open>run_task_closed\<close>, one iteration
    of a goroutine once the session is closed (its one call fails); \<open>eph_owned\<close>, every
    entry of the session's ephemeral table is an existing ephemeral node, preserved by
    the client code (\<open>client_inv\<close>) and the other sessions' writes; under it and
    \<open>zk_wf\<close>, \<open>Close\<close> deletes exactly the owned ephemeral nodes, because an
    ephemeral node is a leaf.
  \<^item> \<open>Session\<close>: \<open>sys_step\<close>, the inductive step relation of the whole process: any
    goroutine's iteration, delivery of a fired event, another session's write, one
    call of a publisher or query, or closing the session, interleaved in any order;
    once closed, the package's calls fail at their first service call and change
    nothing (no step), while the goroutines keep handling their queued events;
    \<open>discovery_paths\<close>, the invariant that every goroutine watches a topic's
    directory and every binding-changed callback names a binding leaf.
  \<^item> \<open>Store\<close>: \<open>MessageEntity\<close>, \<open>MessageEntity_String\<close>, \<open>GetBody\<close>, the two
    constructors, \<open>IKiteStore\<close> as a record of state-passing operations, the contract
    of spec \<section>4.7 as \<open>kite_store_contract\<close>, and an in-memory store meeting it.
  \<^item> this theory: the properties that join the publishers and the dispatcher.

  \<^bold>\<open>What the lemmas show.\<close>
  Registrar (C1-C4, C17): idempotent registration, the result and the nodes after a
  success under any faults, the time bound of the sleeps, bootstrap, and its three
  panics, each leaving the service unchanged. Publishers (C5-C9, C21, C27): each
  publisher refines the abstract registration, grouping is exactly the per-topic
  grouping, a successful \<open>PublishBindings\<close> writes each topic's leaf with its group's
  encoding and nothing else, a codec failure at any topic of Go's iteration order
  returns the error with every earlier topic written and no later one, the first
  registration error stops a presence batch, and a successful \<open>PublishBindings\<close>
  does not depend on the order in which Go's map visits the topics (C27). Dispatch and
  queries (C10-C14, C22, C26): the branches of the loop, the absent-topic and
  aggregation behaviour of the queries, a failed \<open>Children\<close> that leaves the
  existence watch armed with no goroutine to read it, and the \<open>Child\<close> branch
  reporting the current children and re-arming its watch. Process (C15): in every run
  the binding-changed callback is unreachable for ordinary topics (names without a
  slash); the plain theorems \<open>binding_update_lost\<close> and
  \<open>shared_channel_misroute\<close> are concrete runs of the two channel-sharing bugs
  recorded as findings. Store (C18): a message whose header is committed is saved
  committed and can never be rolled back, on any store meeting the contract. Close
  (C16, C20): when the next call fails, as every call of a closed session does, each
  publisher and query stops at its first call with no effect but the fault oracle (which
  is why the package's calls on a closed session are no steps of the process); a broker
  leaf that \<open>PublishQServer\<close> created is gone after \<open>Close\<close> while its topic
  directory stays. This theory (C19, C23-C25, C28): the leaf names
  \<open>PublishBindings\<close> writes are recognised by the dispatcher exactly when the group id
  is not empty (and \<open>not_bind_level_infix\<close>: the test matches \<open>-bind\<close> anywhere in
  the segment), a consumer reads back the set of bindings a publisher wrote (given a
  codec meeting the round trip of spec \<section>8.3), through the direct read (C23) and
  through \<open>GetBindAndWatch\<close>, which also starts the topic's goroutine (C28), a
  published broker is found by the server query, and an empty topic name is refused by
  the service with no change.

  \<^bold>\<open>Bounds and fuel.\<close>
  The confirmation poll is at most five \<open>Exists\<close> calls sleeping 0, 100, 200, 300 and
  400 ms (a \<open>function\<close> with the measure \<open>5 - i\<close>), so one \<open>innerCreatePath\<close> sleeps
  at most 1000 ms. Every other loop is structural recursion over a list. The
  dispatch goroutine's infinite loop is not a function: each iteration is a step of
  \<open>sys_step\<close>, and a run is any finite sequence of steps, so the invariants hold for
  every prefix of an infinite run. Channels hold at most 10 events (\<open>watcher_cap\<close>),
  a guard of the spec-modelled delivery. \<open>ancestors\<close> terminates because a parent has
  fewer path pieces than its child (or is the root). No fuel is used.

  \<^bold>\<open>Not modelled.\<close>
  \<open>log.Printf\<close> has no effect on state or results; session expiry without
  \<open>Close\<close> is not a separate step (its removal of ephemeral nodes is an other-session
  delete); the events a closed session's library puts on the watch channels when it
  shuts down are the library's, outside the spec, and are not modelled; a call of
  this package is one atomic step, so the interleaving inside a query between its
  goroutine start and its group reads is not explored; the wire format of bindings and
  the message store's engine are outside the repository. The \<open>Persistent\<close>
  flag of a binding is carried but, as in the code, unused. Go's \<open>range\<close>
  over the map \<open>groupBind\<close> visits the topics in an unspecified order; the
  model fixes first-insertion order. C27 shows that a successful call does not depend on
  it (registrations of different topics commute), so C8, C23 and C28 hold for every
  order; C9 is stated for an arbitrary position in an arbitrary order.
  Every line of the two source files is translated except the imports, the comments and
  the logging. Two components stay partly modelled because their code is not in the
  repository: the ZooKeeper client library, whose documented behaviour \<open>Zk\<close> models
  as far as this package observes it, and the binding codec, of which only the contract
  is known (spec \<section>6 and \<section>8.3).
\<close>

section \<open>Properties across the publishers and the dispatcher\<close>

text \<open>C19 (spec \<section>4.4 and \<section>4.5, leaf naming). For a topic and a group id without a
  slash, the leaf \<open>/kiteq/sub/{topic}/{groupId}-bind\<close> that \<open>PublishBindings\<close> writes is
  classified a binding leaf by the dispatcher's test exactly when the group id is not
  empty: for the empty group id the segment is \<open>-bind\<close>, found at index 0, which the
  test \<open>LastIndex(...) <= 0\<close> rejects.\<close>

theorem bind_leaf_classification:
  assumes "slash \<notin> set t" "slash \<notin> set g"
  shows "not_bind_level (sub_path t @ ''/'' @ bind_name g) \<longleftrightarrow> g = []"
proof -
  have s: "split_on slash (sub_path t @ ''/'' @ bind_name g) = [[], ''kiteq'', ''sub'', t, g @ ''-bind'']"
    using assms by (simp add: namespace_defs slash_def split_on_append_sep split_on_no_sep)
  show ?thesis unfolding not_bind_level_def Let_def s by (simp add: last_index_suffix)
qed

theorem bind_leaf_classification_witness:
  "slash \<notin> set ''A'' \<and> slash \<notin> set ''G'' \<and> \<not> not_bind_level (sub_path ''A'' @ ''/'' @ bind_name ''G'')
   \<and> not_bind_level (sub_path ''A'' @ ''/'' @ bind_name [])"
  using bind_leaf_classification [of "''A''" "''G''"] bind_leaf_classification [of "''A''" "[]"]
  by (simp add: slash_def)

text \<open>Spec \<section>4.5 says "ends in -bind". The dispatcher's test looks for \<open>-bind\<close>
  anywhere after the first character of the fifth path piece: a segment such as
  \<open>G-bindings\<close> is taken for a binding leaf, while \<open>-bind\<close> itself is not.\<close>

theorem not_bind_level_infix:
  "\<not> not_bind_level ''/kiteq/sub/A/G-bindings'' \<and> not_bind_level ''/kiteq/sub/A/-bind''
   \<and> not_bind_level ''/kiteq/sub/A''"
  by (simp add: not_bind_level_def slash_def last_index_def occurs_at_def)

text \<open>C23 (spec \<section>8.3 and \<section>4.5, publish/read round trip). With a codec whose
  decoder inverts its encoder, after a successful \<open>PublishBindings\<close> the dispatcher's
  \<open>getBindData\<close> on a topic's leaf \<open>/kiteq/sub/{topic}/{groupId}-bind\<close> returns the
  bindings of that topic given to the publisher, with the group id set, as a set (the
  codec may reorder them): what a publisher writes is what a consumer reads back.\<close>

theorem publish_then_read_bindings:
  assumes "codec_roundtrip cd" "b \<in> set bs"
    "faults z = []" "good_seg (bind_name groupId)" "\<forall>b \<in> set bs. good_seg (Topic b)"
    "dir_ok (lookup z) ''/''"
    "\<forall>b \<in> set bs. list_all (persistent_or_absent (lookup z)) (prefix_paths [] (sub_segs (Topic b)))"
    "\<forall>b \<in> set bs. \<not> isl (MarshalBinds cd (group_spec groupId bs (Topic b)))"
  shows "\<exists>z' bs'. PublishBindings cd groupId bs z = (None, z')
    \<and> fst (getBindData cd (sub_path (Topic b) @ ''/'' @ bind_name groupId) c z') = Inr bs'
    \<and> set bs' = set (group_spec groupId bs (Topic b))"
proof -
  from PublishBindings_leaves [OF assms(3-8)] obtain z' where
    z': "PublishBindings cd groupId bs z = (None, z')"
    and data: "map_option zdata (lookup z' (sub_path (Topic b) @ ''/'' @ bind_name groupId))
                 = Some (projr (MarshalBinds cd (group_spec groupId bs (Topic b))))"
    using assms(2) by blast
  have nf: "faults z' = []"
    using client_inv_publishers(3) [OF client_inv_no_faults assms(3), of cd groupId bs] z' by simp
  obtain d where "MarshalBinds cd (group_spec groupId bs (Topic b)) = Inr d"
    using assms(2,8) by (cases "MarshalBinds cd (group_spec groupId bs (Topic b))") auto
  moreover from this obtain bs' where "UmarshalBinds cd d = Inr bs'"
    "set bs' = set (group_spec groupId bs (Topic b))"
    using assms(1) unfolding codec_roundtrip_def by blast
  ultimately show ?thesis using z' data nf
    by (auto simp: getBindData_no_fault split: option.split)
qed


theorem publish_then_read_bindings_witness:
  "let b1 = \<lparr>GroupId = [], Topic = ''A'', MessageType = ''rule1'', BindType = Direct, Persistent = True\<rparr>;
       g1 = \<lparr>GroupId = ''G'', Topic = ''A'', MessageType = ''rule1'', BindType = Direct, Persistent = True\<rparr>;
       cd = \<lparr>MarshalBinds = (\<lambda>bs. if bs = [g1] then Inr ''x'' else Inl ''unsupported''),
             UmarshalBinds = (\<lambda>d. if d = ''x'' then Inr [g1] else Inl ''corrupt'')\<rparr>
   in codec_roundtrip cd
    \<and> (\<exists>z' bs'. PublishBindings cd ''G'' [b1] zk_init = (None, z')
        \<and> fst (getBindData cd ''/kiteq/sub/A/G-bind'' 1 z') = Inr bs' \<and> set bs' = {g1})"
proof -
  define b1 where "b1 = \<lparr>GroupId = [], Topic = ''A'', MessageType = ''rule1'', BindType = Direct, Persistent = True\<rparr>"
  define g1 where "g1 = \<lparr>GroupId = ''G'', Topic = ''A'', MessageType = ''rule1'', BindType = Direct, Persistent = True\<rparr>"
  define cd where "cd = \<lparr>MarshalBinds = (\<lambda>bs. if bs = [g1] then Inr ''x'' else Inl ''unsupported''),
             UmarshalBinds = (\<lambda>d. if d = ''x'' then Inr [g1] else Inl ''corrupt'')\<rparr>"
  have rt: "codec_roundtrip cd" by (auto simp: codec_roundtrip_def cd_def split: if_splits)
  have g: "group_spec ''G'' [b1] ''A'' = [g1]" by (simp add: group_spec_def b1_def g1_def)
  have h: "b1 \<in> set [b1]" "faults zk_init = []" "good_seg (bind_name ''G'')" "\<forall>b \<in> set [b1]. good_seg (Topic b)"
    "dir_ok (lookup zk_init) ''/''"
    "\<forall>b \<in> set [b1]. list_all (persistent_or_absent (lookup zk_init)) (prefix_paths [] (sub_segs (Topic b)))"
    "\<forall>b \<in> set [b1]. \<not> isl (MarshalBinds cd (group_spec ''G'' [b1] (Topic b)))"
    using g by (simp_all add: init_facts sub_segs_def abs_path_def bind_name_def b1_def cd_def)
  have p: "Topic b1 = ''A''" "sub_path ''A'' @ ''/'' @ bind_name ''G'' = ''/kiteq/sub/A/G-bind''"
    by (simp_all add: sub_path_def namespace_defs bind_name_def b1_def)
  have "\<exists>z' bs'. PublishBindings cd ''G'' [b1] zk_init = (None, z')
      \<and> fst (getBindData cd ''/kiteq/sub/A/G-bind'' 1 z') = Inr bs' \<and> set bs' = {g1}"
    using publish_then_read_bindings [OF rt h, of 1] unfolding p g by simp
  with rt show ?thesis
    unfolding Let_def g1_def [symmetric] b1_def [symmetric] cd_def [symmetric] by blast
qed

text \<open>C24 (spec \<section>4.3 and \<section>4.5, presence is discoverable). Once
  \<open>PublishQServer(hostport, topics)\<close> has succeeded from a state without connection
  faults, a consumer's \<open>GetQServerAndWatch\<close> for any of those topics returns a list of
  brokers that includes \<open>hostport\<close>, and starts the dispatch goroutine for the topic's
  server directory.\<close>

theorem publish_then_discover_servers:
  assumes "PublishQServer h ts z = (None, z')" "t \<in> set ts" "good_seg h" "faults z = []"
  shows "\<exists>hs s'. GetQServerAndWatch t nw \<lparr>zs = z', tasks = tks, trace = tr\<rparr> = (Inr hs, s')
    \<and> h \<in> set hs \<and> tasks s' = tks @ [(server_path t, nw)]"
proof -
  have nf: "faults z' = []"
    using client_inv_publishers(1) [OF client_inv_no_faults assms(4), of h ts] assms(1) by simp
  from PublishQServer_present [OF assms(1,2)] have p: "lookup z' (server_path t) \<noteq> None"
    "lookup z' (server_path t @ ''/'' @ h) \<noteq> None" by auto
  have "2 \<le> length (split_on slash (server_path t))"
    by (simp add: server_path_def namespace_defs slash_def)
  then have c: "h \<in> set (children_of z' (server_path t))"
    using children_of_member [OF p(2)] assms(3) by (simp add: good_seg_def)
  show ?thesis using nf p(1) c
    by (auto simp: GetQServerAndWatch_def Let_def zk_simps result_or_def addWatch_def)
qed

theorem publish_then_discover_servers_witness:
  "PublishQServer ''h:1'' [''A'', ''B''] zk_init = (None, snd (PublishQServer ''h:1'' [''A'', ''B''] zk_init))
   \<and> good_seg ''h:1'' \<and> faults zk_init = []
   \<and> (\<exists>hs s'. GetQServerAndWatch ''B'' (NewWatcher (0::nat) 1)
          \<lparr>zs = snd (PublishQServer ''h:1'' [''A'', ''B''] zk_init), tasks = [], trace = []\<rparr> = (Inr hs, s')
        \<and> ''h:1'' \<in> set hs \<and> tasks s' = [(server_path ''B'', NewWatcher 0 1)])"
proof -
  have r: "PublishQServer ''h:1'' [''A'', ''B''] zk_init = (None, snd (PublishQServer ''h:1'' [''A'', ''B''] zk_init))"
  proof -
    have "fst (PublishQServer ''h:1'' [''A'', ''B''] zk_init) = None" by code_simp
    then show ?thesis by (simp add: prod_eq_iff)
  qed
  have g: "good_seg ''h:1''" "faults zk_init = []" by (simp_all add: good_seg_def slash_def zk_init_def)
  from publish_then_discover_servers [OF r _ g, of "''B''" "NewWatcher 0 1" "[]" "[]"] r g show ?thesis
    by simp
qed

text \<open>C25 (spec \<section>2 and \<section>4.3, empty topic). A topic name is not checked: for the
  empty topic the publishers build \<open>/kiteq/server/\<close> and \<open>/kiteq/sub/\<close>, whose last
  path piece is empty. On a well-formed tree whose namespace directories exist and
  without connection faults, the walk finds the directories, the service refuses the
  trailing-slash path, and the call fails with a bad-arguments error, changing nothing:
  \<open>PublishQServer\<close> stops at the empty topic, and \<open>PublishBindings\<close> with only
  empty-topic bindings fails although the codec encoded them.\<close>

theorem empty_topic_rejected:
  assumes "faults z = []" "zk_wf z" "dir_ok (lookup z) ''/kiteq''" "dir_ok (lookup z) ''/kiteq/server''"
    "dir_ok (lookup z) ''/kiteq/sub''" "bs \<noteq> []" "\<forall>b \<in> set bs. Topic b = []"
    "\<not> isl (MarshalBinds cd (group_spec g bs []))"
  shows "PublishQServer h ([] # ts) z = (Some ErrBadArguments, z)
    \<and> PublishBindings cd g bs z = (Some (RegisterErr ErrBadArguments), z)"
proof -
  have bad: "lookup z q = None" if "\<not> valid_path q" "q \<noteq> ''/''" for q
    using zk_wf_node_valid [OF assms(2), of q] that by blast
  have k: "lookup z ''/kiteq'' \<noteq> None" "lookup z ''/kiteq/server'' \<noteq> None" "lookup z ''/kiteq/sub'' \<noteq> None"
    using assms(3-5) by (simp_all add: dir_ok_present)
  have v: "\<not> valid_path ''/kiteq/server/''" "\<not> valid_path ''/kiteq/sub/''"
    by (simp_all add: valid_path_def slash_def)
  have "PublishQServer h ([] # ts) z = (Some ErrBadArguments, z)"
    using assms(1) k v(1) bad [of "''/kiteq/server/''"]
    by (simp add: registePath_def traverseCreatePath_def server_path_def namespace_defs slash_def
        innerCreatePath_dir innerCreatePath_bad)
  moreover have "group_loop g [] bs = [([], group_spec g bs [])]" by (rule group_loop_single [OF assms(7,6)])
  then have "PublishBindings cd g bs z = (Some (RegisterErr ErrBadArguments), z)"
    using assms(1,8) k v(2) bad [of "''/kiteq/sub/''"]
    by (auto simp: PublishBindings_def registePath_def traverseCreatePath_def sub_path_def namespace_defs
        slash_def innerCreatePath_dir innerCreatePath_bad split: sum.split)
  ultimately show ?thesis by blast
qed

theorem empty_topic_rejected_witness:
  "let z = zk_init\<lparr>nodes := [(''/'', empty_dir), (''/kiteq'', empty_dir), (''/kiteq/server'', empty_dir),
                             (''/kiteq/sub'', empty_dir)]\<rparr>;
       b = \<lparr>GroupId = [], Topic = [], MessageType = ''m'', BindType = Direct, Persistent = True\<rparr>;
       cd = \<lparr>MarshalBinds = (\<lambda>bs. Inr ''x''), UmarshalBinds = (\<lambda>d. Inl ''unused'')\<rparr>
   in faults z = [] \<and> zk_wf z \<and> dir_ok (lookup z) ''/kiteq'' \<and> dir_ok (lookup z) ''/kiteq/server''
    \<and> dir_ok (lookup z) ''/kiteq/sub''
    \<and> PublishQServer ''h:1'' [[], ''A''] z = (Some ErrBadArguments, z)
    \<and> PublishBindings cd ''G'' [b] z = (Some (RegisterErr ErrBadArguments), z)"
proof -
  define z where "z = zk_init\<lparr>nodes := [(''/'', empty_dir), (''/kiteq'', empty_dir), (''/kiteq/server'', empty_dir),
                             (''/kiteq/sub'', empty_dir)]\<rparr>"
  define b where "b = \<lparr>GroupId = ([]::string), Topic = ([]::string), MessageType = ''m'', BindType = Direct, Persistent = True\<rparr>"
  define cd where "cd = \<lparr>MarshalBinds = (\<lambda>bs::binding list. Inr ''x''), UmarshalBinds = (\<lambda>d::bytes. Inl ''unused'')\<rparr>"
  have h: "faults z = []" "zk_wf z" "dir_ok (lookup z) ''/kiteq''" "dir_ok (lookup z) ''/kiteq/server''"
    "dir_ok (lookup z) ''/kiteq/sub''" "[b] \<noteq> []" "\<forall>b' \<in> set [b]. Topic b' = []"
    "\<not> isl (MarshalBinds cd (group_spec ''G'' [b] []))"
    unfolding z_def b_def cd_def
    by (simp_all add: zk_init_def zk_wf_def lookup_def dir_ok_def empty_dir_def valid_path_def
        parent_path_def slash_def)
  from empty_topic_rejected [OF h, of "''h:1''" "[''A'']"] h(1-5) show ?thesis
    unfolding Let_def z_def [symmetric] b_def [symmetric] cd_def [symmetric] by blast
qed

text \<open>C28 (spec \<section>4.4 and \<section>4.6, a published binding is discovered). With a codec
  meeting the round trip of spec \<section>8.3, on a fault-free well-formed tree, once
  \<open>PublishBindings(groupId, bindings)\<close> has succeeded, a consumer's
  \<open>GetBindAndWatch\<close> for the topic of any of those bindings succeeds, returns every
  binding published for that topic (with the group id set), and starts the dispatch
  goroutine for the topic's directory: the publisher's leaf name, the query's children
  listing and the payload decoding fit together.\<close>

theorem publish_then_query_bindings:
  assumes "codec_roundtrip cd" "b \<in> set bs" "faults z = []" "zk_wf z"
    "good_seg (bind_name groupId)" "\<forall>b \<in> set bs. good_seg (Topic b)"
    "\<forall>b \<in> set bs. list_all (persistent_or_absent (lookup z)) (prefix_paths [] (sub_segs (Topic b)))"
    "\<forall>b \<in> set bs. \<not> isl (MarshalBinds cd (group_spec groupId bs (Topic b)))"
  shows "\<exists>z' hs s'. PublishBindings cd groupId bs z = (None, z')
    \<and> GetBindAndWatch cd (Topic b) nw \<lparr>zs = z', tasks = tks, trace = tr\<rparr> = (Inr hs, s')
    \<and> set (group_spec groupId bs (Topic b)) \<subseteq> set hs \<and> tasks s' = tks @ [(sub_path (Topic b), nw)]"
proof -
  let ?t = "Topic b" and ?c = "bind_name groupId"
  let ?L = "sub_path ?t @ ''/'' @ ?c" and ?G = "group_spec groupId bs (Topic b)"
  have root: "dir_ok (lookup z) ''/''" using assms(4) by (simp add: zk_wf_def)
  from PublishBindings_leaves [OF assms(3,5,6) root assms(7,8)] obtain z' where
    run: "PublishBindings cd groupId bs z = (None, z')"
    and data: "map_option zdata (lookup z' ?L) = Some (projr (MarshalBinds cd ?G))"
    using assms(2) by blast
  have nf: "faults z' = []"
    using client_inv_publishers(3) [OF client_inv_no_faults assms(3), of cd groupId bs] run by simp
  have wf: "zk_wf z'"
    using client_inv_publishers(3) [OF client_inv_zk_wf assms(4), of cd groupId bs] run by simp
  obtain d where d: "MarshalBinds cd ?G = Inr d" using assms(2,8) by (cases "MarshalBinds cd ?G") auto
  with assms(1) obtain bs' where dec: "UmarshalBinds cd d = Inr bs'" "set bs' = set ?G"
    unfolding codec_roundtrip_def by blast
  from data d obtain n where n: "lookup z' ?L = Some n" "zdata n = d" by auto
  have gt: "good_seg ?t" using assms(2,6) by blast
  have "list_all (dir_ok (lookup z')) (ancestors ?L)" using wf n(1) by (intro ancestors_dir_ok) simp_all
  moreover have "?L \<noteq> ''/''" by (simp add: sub_path_def namespace_defs)
  ultimately have "dir_ok (lookup z') (parent_path ?L)" by (subst (asm) ancestors.simps) simp
  moreover have "parent_path (abs_path (sub_segs ?t @ [?c])) = abs_path (sub_segs ?t)"
    using gt assms(5) parent_abs_path_snoc [of "sub_segs ?t" ?c]
    by (simp add: sub_segs_def good_seg_def slash_def)
  then have "parent_path ?L = sub_path ?t" unfolding sub_leaf_path by (simp only: sub_path_segs)
  ultimately have dir: "lookup z' (sub_path ?t) \<noteq> None" by (simp add: dir_ok_def split: option.splits)
  have "2 \<le> length (split_on slash (sub_path ?t))"
    by (simp add: sub_path_def namespace_defs slash_def)
  then have mem: "?c \<in> set (children_of z' (sub_path ?t))"
    using children_of_member [of z' "sub_path ?t" ?c] n(1) assms(5) by (simp add: good_seg_def)
  have db: "decoded_binds cd z' (sub_path ?t) ?c = bs'"
    using n dec(1) by (simp add: decoded_binds_def)
  from GetBindAndWatch_no_fault [of "\<lparr>zs = z', tasks = tks, trace = tr\<rparr>" ?t cd nw] nf dir
  obtain s' where q: "GetBindAndWatch cd ?t nw \<lparr>zs = z', tasks = tks, trace = tr\<rparr>
      = (Inr (concat (map (decoded_binds cd z' (sub_path ?t)) (children_of z' (sub_path ?t)))), s')"
    "tasks s' = tks @ [(sub_path ?t, nw)]" by auto
  have "set ?G \<subseteq> set (concat (map (decoded_binds cd z' (sub_path ?t)) (children_of z' (sub_path ?t))))"
    using mem db dec(2) by auto
  with run q show ?thesis by blast
qed

theorem publish_then_query_bindings_witness:
  "let b1 = \<lparr>GroupId = [], Topic = ''A'', MessageType = ''rule1'', BindType = Direct, Persistent = True\<rparr>;
       g1 = \<lparr>GroupId = ''G'', Topic = ''A'', MessageType = ''rule1'', BindType = Direct, Persistent = True\<rparr>;
       cd = \<lparr>MarshalBinds = (\<lambda>bs. if bs = [g1] then Inr ''x'' else Inl ''unsupported''),
             UmarshalBinds = (\<lambda>d. if d = ''x'' then Inr [g1] else Inl ''corrupt'')\<rparr>
   in codec_roundtrip cd \<and> zk_wf zk_init
    \<and> (\<exists>z' hs s'. PublishBindings cd ''G'' [b1] zk_init = (None, z')
        \<and> GetBindAndWatch cd ''A'' (NewWatcher (0::nat) 1) \<lparr>zs = z', tasks = [], trace = []\<rparr> = (Inr hs, s')
        \<and> g1 \<in> set hs \<and> tasks s' = [(''/kiteq/sub/A'', NewWatcher 0 1)])"
proof -
  define b1 where "b1 = \<lparr>GroupId = [], Topic = ''A'', MessageType = ''rule1'', BindType = Direct, Persistent = True\<rparr>"
  define g1 where "g1 = \<lparr>GroupId = ''G'', Topic = ''A'', MessageType = ''rule1'', BindType = Direct, Persistent = True\<rparr>"
  define cd where "cd = \<lparr>MarshalBinds = (\<lambda>bs. if bs = [g1] then Inr ''x'' else Inl ''unsupported''),
             UmarshalBinds = (\<lambda>d. if d = ''x'' then Inr [g1] else Inl ''corrupt'')\<rparr>"
  have rt: "codec_roundtrip cd" by (auto simp: codec_roundtrip_def cd_def split: if_splits)
  have g: "group_spec ''G'' [b1] ''A'' = [g1]" by (simp add: group_spec_def b1_def g1_def)
  have h: "b1 \<in> set [b1]" "faults zk_init = []" "zk_wf zk_init" "good_seg (bind_name ''G'')"
    "\<forall>b \<in> set [b1]. good_seg (Topic b)"
    "\<forall>b \<in> set [b1]. list_all (persistent_or_absent (lookup zk_init)) (prefix_paths [] (sub_segs (Topic b)))"
    "\<forall>b \<in> set [b1]. \<not> isl (MarshalBinds cd (group_spec ''G'' [b1] (Topic b)))"
    using g zk_wf_init by (simp_all add: init_facts sub_segs_def abs_path_def bind_name_def b1_def cd_def)
  have p: "Topic b1 = ''A''" "sub_path ''A'' = ''/kiteq/sub/A''"
    by (simp_all add: sub_path_def namespace_defs b1_def)
  have "\<exists>z' hs s'. PublishBindings cd ''G'' [b1] zk_init = (None, z')
      \<and> GetBindAndWatch cd ''A'' (NewWatcher (0::nat) 1) \<lparr>zs = z', tasks = [], trace = []\<rparr> = (Inr hs, s')
      \<and> g1 \<in> set hs \<and> tasks s' = [(''/kiteq/sub/A'', NewWatcher 0 1)]"
    using publish_then_query_bindings [OF rt h, of "NewWatcher (0::nat) 1" "[]" "[]"] unfolding p g by simp
  with rt h(3) show ?thesis
    unfolding Let_def g1_def [symmetric] b1_def [symmetric] cd_def [symmetric] by blast
qed

section \<open>Closing the session\<close>

text \<open>C20 (spec \<section>4.3 and \<section>5, a closed broker disappears). Once
  \<open>PublishQServer(hostport, topics)\<close> has succeeded from a fault-free state in which the
  broker's leaf \<open>/kiteq/server/{topic}/{hostport}\<close> of one of the topics was absent,
  closing the session removes that leaf and keeps the topic's server directory: the
  presence the publisher created is owned by the session and ends with it.\<close>

theorem publish_then_close_presence:
  assumes "faults z = []" "good_seg h" "\<forall>t \<in> set ts. good_seg t" "dir_ok (lookup z) ''/''"
    "\<forall>t \<in> set ts. list_all (persistent_or_absent (lookup z)) (prefix_paths [] (server_segs t))"
    "zk_wf z" "eph_owned z" "t \<in> set ts" "lookup z (server_path t @ ''/'' @ h) = None"
  shows "\<exists>z'. PublishQServer h ts z = (None, z') \<and> lookup z' (server_path t @ ''/'' @ h) \<noteq> None
    \<and> lookup (Close z') (server_path t @ ''/'' @ h) = None
    \<and> lookup (Close z') (server_path t) = lookup z' (server_path t)"
proof -
  let ?L = "server_path t @ ''/'' @ h"
  from PublishQServer_refines [OF assms(1-5)] obtain z' where run: "PublishQServer h ts z = (None, z')"
    and l: "lookup z' = fold (\<lambda>t m. register_spec (server_segs t) h CreateEphemeral None m) ts (lookup z)"
    by blast
  have p: "lookup z' (server_path t) \<noteq> None" "lookup z' ?L \<noteq> None"
    using PublishQServer_present [OF run assms(8)] by simp_all
  have "map_option zmode (lookup z (abs_path (server_segs t @ [h]))) \<in> {None, Some CreateEphemeral}"
    unfolding server_leaf_path [symmetric] using assms(9) by simp
  moreover have "good_seg t" using assms(3,8) by blast
  ultimately have "map_option zmode (lookup z' ?L) \<in> {None, Some CreateEphemeral}"
    unfolding l server_leaf_path using fold_register_server_leaf [OF assms(2) _ assms(3)] by blast
  with p(2) have eph: "map_option zmode (lookup z' ?L) = Some CreateEphemeral" by auto
  have "own_tracked (lookup z) z'"
    using client_inv_publishers(1) [OF client_inv_own_tracked own_tracked_start, of z h ts] run by simp
  with eph assms(9) have own: "?L \<in> set (ephemerals z')" by (simp add: own_tracked_def)
  have wf: "zk_wf z'" "eph_owned z'"
    using client_inv_publishers(1) [OF client_inv_zk_wf assms(6), of h ts]
      client_inv_publishers(1) [OF client_inv_eph_owned assms(7), of h ts] run by simp_all
  have "list_all (dir_ok (lookup z')) (ancestors ?L)" using wf(1) p(2) by (rule ancestors_dir_ok)
  moreover have "?L \<noteq> ''/''" by (simp add: server_path_def namespace_defs)
  ultimately have "dir_ok (lookup z') (parent_path ?L)" by (subst (asm) ancestors.simps) simp
  moreover have "parent_path (abs_path (server_segs t @ [h])) = abs_path (server_segs t)"
    using assms(2,3,8) parent_abs_path_snoc [of "server_segs t" h]
    by (simp add: server_segs_def good_seg_def slash_def)
  then have "parent_path ?L = server_path t" unfolding server_leaf_path by (simp only: server_path_segs)
  ultimately have "server_path t \<notin> set (ephemerals z')"
    using wf(2) by (auto simp: eph_owned_def list_all_iff dir_ok_def)
  then show ?thesis using run p own lookup_Close [OF wf] by auto
qed

theorem publish_then_close_presence_witness:
  "faults zk_init = [] \<and> good_seg ''h:1'' \<and> dir_ok (lookup zk_init) ''/''
   \<and> list_all (persistent_or_absent (lookup zk_init)) (prefix_paths [] (server_segs ''A''))
   \<and> zk_wf zk_init \<and> eph_owned zk_init \<and> lookup zk_init (server_path ''A'' @ ''/'' @ ''h:1'') = None
   \<and> (\<exists>z'. PublishQServer ''h:1'' [''A''] zk_init = (None, z')
        \<and> lookup z' ''/kiteq/server/A/h:1'' \<noteq> None \<and> lookup (Close z') ''/kiteq/server/A/h:1'' = None
        \<and> lookup (Close z') ''/kiteq/server/A'' = lookup z' ''/kiteq/server/A'')"
proof -
  have h: "faults zk_init = []" "good_seg ''h:1''" "\<forall>t \<in> set [''A'']. good_seg t"
    "dir_ok (lookup zk_init) ''/''"
    "\<forall>t \<in> set [''A'']. list_all (persistent_or_absent (lookup zk_init)) (prefix_paths [] (server_segs t))"
    by (simp_all add: init_facts server_segs_def abs_path_def)
  have w: "zk_wf zk_init" "eph_owned zk_init" by (fact zk_init_session)+
  have a: "''A'' \<in> set [''A'']" "lookup zk_init (server_path ''A'' @ ''/'' @ ''h:1'') = None"
    by (simp_all add: init_facts server_path_def namespace_defs)
  have s: "server_path ''A'' = ''/kiteq/server/A''" "server_path ''A'' @ ''/'' @ ''h:1'' = ''/kiteq/server/A/h:1''"
    by (simp_all add: server_path_def namespace_defs)
  from publish_then_close_presence [OF h w a] h w a show ?thesis unfolding s by simp
qed

text \<open>C16 (spec \<section>4.2 and \<section>4.6, failure at the first call). When the session's
  next call fails, as every call of a closed session does, each operation of the package
  stops at its first service call: the presence publishers and the binding publisher
  return an error, the queries report an empty list with no error, and nothing but the
  fault oracle changes (no node, watch or goroutine).\<close>

theorem first_call_failure:
  assumes "faults z = True # fs"
  shows "PublishQServer h (t # ts) z = (Some ErrConnectionLoss, z\<lparr>faults := fs\<rparr>)
    \<and> PublishTopics (t # ts) g h z = (Some ErrConnectionLoss, z\<lparr>faults := fs\<rparr>)
    \<and> (bs \<noteq> [] \<longrightarrow> fst (PublishBindings cd g bs z) \<noteq> None
         \<and> snd (PublishBindings cd g bs z) \<in> {z, z\<lparr>faults := fs\<rparr>})
    \<and> GetQServerAndWatch t nw (s\<lparr>zs := z\<rparr>) = (Inr [], s\<lparr>zs := z\<lparr>faults := fs\<rparr>\<rparr>)
    \<and> GetBindAndWatch cd t nw (s\<lparr>zs := z\<rparr>) = (Inr [], s\<lparr>zs := z\<lparr>faults := fs\<rparr>\<rparr>)"
proof (intro conjI impI)
  note R = registePath_first_fail [OF assms]
  show "PublishQServer h (t # ts) z = (Some ErrConnectionLoss, z\<lparr>faults := fs\<rparr>)" using R by simp
  show "PublishTopics (t # ts) g h z = (Some ErrConnectionLoss, z\<lparr>faults := fs\<rparr>)" using R by simp
  assume "bs \<noteq> []"
  then show "fst (PublishBindings cd g bs z) \<noteq> None" "snd (PublishBindings cd g bs z) \<in> {z, z\<lparr>faults := fs\<rparr>}"
    unfolding PublishBindings_def using publish_groups_first_fail [OF assms group_loop_not_Nil] by blast+
next
  have e: "zk_exists p w z = (Inl ErrConnectionLoss, z\<lparr>faults := fs\<rparr>)" for p w
    using assms by (simp add: zk_exists_def fault_step_def)
  show "GetQServerAndWatch t nw (s\<lparr>zs := z\<rparr>) = (Inr [], s\<lparr>zs := z\<lparr>faults := fs\<rparr>\<rparr>)"
    by (simp add: GetQServerAndWatch_def e result_or_def)
  show "GetBindAndWatch cd t nw (s\<lparr>zs := z\<rparr>) = (Inr [], s\<lparr>zs := z\<lparr>faults := fs\<rparr>\<rparr>)"
    by (simp add: GetBindAndWatch_def e result_or_def)
qed

theorem first_call_failure_witness:
  "let z = zk_init\<lparr>faults := [True]\<rparr>;
       b = \<lparr>GroupId = [], Topic = ''A'', MessageType = ''r'', BindType = Direct, Persistent = True\<rparr>;
       cd = \<lparr>MarshalBinds = (\<lambda>bs. Inr ''x''), UmarshalBinds = (\<lambda>d. Inr [])\<rparr>;
       s = (\<lparr>zs = zk_init, tasks = [], trace = []\<rparr> :: nat sys)
   in faults z = [True]
    \<and> PublishQServer ''h:1'' [''A''] z = (Some ErrConnectionLoss, zk_init)
    \<and> PublishTopics [''A''] ''G'' ''h:1'' z = (Some ErrConnectionLoss, zk_init)
    \<and> fst (PublishBindings cd ''G'' [b] z) \<noteq> None \<and> snd (PublishBindings cd ''G'' [b] z) \<in> {z, zk_init}
    \<and> GetQServerAndWatch ''A'' (NewWatcher 0 1) (s\<lparr>zs := z\<rparr>) = (Inr [], s)
    \<and> GetBindAndWatch cd ''A'' (NewWatcher 0 1) (s\<lparr>zs := z\<rparr>) = (Inr [], s)"
proof -
  define z where "z = zk_init\<lparr>faults := [True]\<rparr>"
  define b where "b = \<lparr>GroupId = [], Topic = ''A'', MessageType = ''r'', BindType = Direct, Persistent = True\<rparr>"
  define cd where "cd = \<lparr>MarshalBinds = (\<lambda>bs::binding list. Inr ''x''), UmarshalBinds = (\<lambda>d::bytes. Inr ([]::binding list))\<rparr>"
  define s where "s = (\<lparr>zs = zk_init, tasks = [], trace = []\<rparr> :: nat sys)"
  have f: "faults z = True # []" by (simp add: z_def)
  have u: "z\<lparr>faults := []\<rparr> = zk_init" "s\<lparr>zs := zk_init\<rparr> = s" by (simp_all add: z_def zk_init_def s_def)
  from first_call_failure [OF f, of "''h:1''" "''A''" "[]" "''G''" "[b]" cd "NewWatcher 0 1" s] u f
  show ?thesis unfolding Let_def z_def [symmetric] b_def [symmetric] cd_def [symmetric] s_def [symmetric]
    by simp
qed

end
